theory Spec2Isabelle
  imports Main "HOL-Library.Extended_Nat" "HOL-Library.AList"
begin

section \<open>Hopcroft--Karp matcher (src/match.py, hopcroft\_karp)\<close>

text \<open>
  The three dictionaries that the closures \<open>bfs\<close> and \<open>dfs\<close> share.
  \<^item> \<open>match_left\<close> is iterated by the caller (\<open>match_left.items()\<close>), so it is an
    insertion-ordered association list; \<open>match_left[u] = v\<close> is \<open>AList.update u v\<close>
    (replace in place, or append a new key at the end).
  \<^item> \<open>match_right\<close> is only read with \<open>.get(v, None)\<close>: a map whose lookup is
    \<open>None\<close> for a missing key.
  \<^item> \<open>dist\<close> is keyed by left nodes and by the sentinel \<open>None\<close>, hence by
    \<open>'a option\<close>. Its values are integers or \<open>float('inf')\<close>: \<open>enat\<close>, where
    \<open>\<infinity> + 1 = \<infinity>\<close> as for the float. A missing key reads as \<open>\<infinity>\<close>, which is what
    \<open>dist.get(k, INF)\<close> returns; the subscripts \<open>dist[u]\<close> of the source only read keys
    that were written before (every left node and \<open>None\<close> are written at the start of
    each \<open>bfs\<close>, and the arguments of \<open>dfs\<close> are left nodes or values of
    \<open>match_right\<close>, which are left nodes).
  The graph is a \<open>defaultdict(list)\<close> at the only call site: \<open>graph[u]\<close> is total.
  The sentinel \<open>None\<close> is not a node: nodes have type \<open>'a\<close>, the sentinel is
  \<open>None :: 'a option\<close>. A graph with a left node \<open>None\<close>, whose entry \<open>dist[None]\<close> the
  source shares with the sentinel, is outside the model; the ids of
  \<open>match_student_pairs\<close> are ordered values and never \<open>None\<close>.
\<close>

record ('a, 'b) hk_state =
  match_left :: "('a \<times> 'b) list"
  match_right :: "'b \<rightharpoonup> 'a"
  dist :: "'a option \<Rightarrow> enat"

text \<open>First loop of \<open>bfs\<close>: free left nodes get distance 0 and are queued.\<close>

fun bfs_init ::
  "('a \<times> 'b) list \<Rightarrow> 'a list \<Rightarrow> ('a option \<Rightarrow> enat) \<Rightarrow> 'a option list
    \<Rightarrow> ('a option \<Rightarrow> enat) \<times> 'a option list" where
  "bfs_init ml [] d queue = (d, queue)"
| "bfs_init ml (u # us) d queue =
     (if u \<notin> fst ` set ml
      then bfs_init ml us (d(Some u := 0)) (queue @ [Some u])
      else bfs_init ml us (d(Some u := \<infinity>)) queue)"

text \<open>The loop \<open>for v in graph[u]\<close> of \<open>bfs\<close>.\<close>

fun bfs_scan ::
  "('b \<rightharpoonup> 'a) \<Rightarrow> 'a option \<Rightarrow> 'b list \<Rightarrow> ('a option \<Rightarrow> enat) \<Rightarrow> 'a option list
    \<Rightarrow> ('a option \<Rightarrow> enat) \<times> 'a option list" where
  "bfs_scan mr u [] d queue = (d, queue)"
| "bfs_scan mr u (v # vs) d queue =
     (let u_prime = mr v in
      if d u_prime = \<infinity>
      then bfs_scan mr u vs (d(u_prime := d u + 1)) (queue @ [u_prime])
      else bfs_scan mr u vs d queue)"

text \<open>
  The loop \<open>while queue\<close> of \<open>bfs\<close>. The sentinel can be queued; when it is popped
  the test \<open>dist[u] < dist[None]\<close> is false for it, so \<open>graph[None]\<close> is never read:
  the branch \<open>None\<close> under the test is dead and only makes the case distinction total.
\<close>

partial_function (option) bfs_loop ::
  "('a \<Rightarrow> 'b list) \<Rightarrow> ('b \<rightharpoonup> 'a) \<Rightarrow> ('a option \<Rightarrow> enat) \<Rightarrow> 'a option list
    \<Rightarrow> ('a option \<Rightarrow> enat) option" where
  [code]: "bfs_loop graph mr d queue =
     (case queue of
        [] \<Rightarrow> Some d
      | u # queue' \<Rightarrow>
          (if d u < d None
           then (case u of
                   Some w \<Rightarrow>
                     (case bfs_scan mr u (graph w) d queue' of
                        (d', queue'') \<Rightarrow> bfs_loop graph mr d' queue'')
                 | None \<Rightarrow> bfs_loop graph mr d queue')
           else bfs_loop graph mr d queue'))"

definition bfs ::
  "('a \<Rightarrow> 'b list) \<Rightarrow> 'a list \<Rightarrow> ('a, 'b) hk_state \<Rightarrow> (bool \<times> ('a, 'b) hk_state) option" where
  "bfs graph left_nodes s =
     (case bfs_init (match_left s) left_nodes (dist s) [] of
        (d, queue) \<Rightarrow>
          map_option (\<lambda>d'. (d' None \<noteq> \<infinity>, s\<lparr>dist := d'\<rparr>))
            (bfs_loop graph (match_right s) (d(None := \<infinity>)) queue))"

text \<open>
  \<open>dfs\<close>: \<open>dfs_loop graph u vs s\<close> is the loop \<open>for v in graph[u]\<close> of \<open>dfs(u)\<close> with
  \<open>vs\<close> still to visit, followed by the two lines after the loop. The recursive call
  \<open>dfs(u_prime)\<close> is inlined: \<open>True\<close> at once for the sentinel, the loop over
  \<open>graph[w]\<close> for a node \<open>w\<close>. A recursion that never returns is the value \<open>None\<close>.
\<close>

partial_function (option) dfs_loop ::
  "('a \<Rightarrow> 'b list) \<Rightarrow> 'a \<Rightarrow> 'b list \<Rightarrow> ('a, 'b) hk_state
    \<Rightarrow> (bool \<times> ('a, 'b) hk_state) option" where
  [code]: "dfs_loop graph u vs s =
     (case vs of
        [] \<Rightarrow> Some (False, s\<lparr>dist := (dist s)(Some u := \<infinity>)\<rparr>)
      | v # vs' \<Rightarrow>
          (let u_prime = match_right s v in
           if dist s u_prime = dist s (Some u) + 1
           then
             Option.bind
               (case u_prime of
                  None \<Rightarrow> Some (True, s)
                | Some w \<Rightarrow> dfs_loop graph w (graph w) s)
               (\<lambda>(found, s').
                  if found
                  then Some (True, s'\<lparr>match_left := AList.update u v (match_left s'),
                                       match_right := (match_right s')(v \<mapsto> u)\<rparr>)
                  else dfs_loop graph u vs' s')
           else dfs_loop graph u vs' s))"

definition dfs ::
  "('a \<Rightarrow> 'b list) \<Rightarrow> 'a option \<Rightarrow> ('a, 'b) hk_state \<Rightarrow> (bool \<times> ('a, 'b) hk_state) option" where
  "dfs graph u s = (case u of None \<Rightarrow> Some (True, s) | Some w \<Rightarrow> dfs_loop graph w (graph w) s)"

text \<open>The loop \<open>for u in left_nodes\<close> of one round, with the counter \<open>matching_size\<close>.\<close>

fun dfs_phase ::
  "('a \<Rightarrow> 'b list) \<Rightarrow> 'a list \<Rightarrow> ('a, 'b) hk_state \<Rightarrow> nat \<Rightarrow> (('a, 'b) hk_state \<times> nat) option" where
  "dfs_phase graph [] s matching_size = Some (s, matching_size)"
| "dfs_phase graph (u # us) s matching_size =
     (if u \<notin> fst ` set (match_left s)
      then (case dfs graph (Some u) s of
              None \<Rightarrow> None
            | Some (found, s') \<Rightarrow>
                dfs_phase graph us s' (if found then matching_size + 1 else matching_size))
      else dfs_phase graph us s matching_size)"

text \<open>The loop \<open>while bfs()\<close>.\<close>

partial_function (option) hk_loop ::
  "('a \<Rightarrow> 'b list) \<Rightarrow> 'a list \<Rightarrow> ('a, 'b) hk_state \<Rightarrow> nat \<Rightarrow> (('a, 'b) hk_state \<times> nat) option" where
  [code]: "hk_loop graph left_nodes s matching_size =
     Option.bind (bfs graph left_nodes s)
       (\<lambda>(reached, s').
          if reached
          then Option.bind (dfs_phase graph left_nodes s' matching_size)
                 (\<lambda>(s'', matching_size'). hk_loop graph left_nodes s'' matching_size')
          else Some (s', matching_size))"

definition hk_init :: "('a, 'b) hk_state" where
  "hk_init = \<lparr>match_left = [], match_right = Map.empty, dist = (\<lambda>_. \<infinity>)\<rparr>"

definition hopcroft_karp :: "('a \<Rightarrow> 'b list) \<Rightarrow> 'a list \<Rightarrow> ('a \<times> 'b) list option" where
  "hopcroft_karp graph left_nodes =
     map_option (\<lambda>(s, matching_size). match_left s) (hk_loop graph left_nodes hk_init 0)"


section \<open>Pairing students (src/match.py, match\_student\_pairs)\<close>

text \<open>
  A student record is the tuple
  \<open>(student_id, current_group, desired_group, accept_teammate_swap, teammate_student_id)\<close>.
  Ids are ordered (they are sorted in the output); a missing teammate is \<open>None\<close>.
\<close>

record ('i, 'g) student =
  student_id :: 'i
  current_group :: 'g
  desired_group :: 'g
  accept_swap :: bool
  teammate_id :: "'i option"

text \<open>
  \<open>swaps\<close> is a \<open>defaultdict(list)\<close> whose keys are iterated in insertion order:
  an association list. \<open>swaps[key].append(record)\<close>:
\<close>

fun swaps_append :: "'k \<Rightarrow> 'r \<Rightarrow> ('k \<times> 'r list) list \<Rightarrow> ('k \<times> 'r list) list" where
  "swaps_append key r [] = [(key, [r])]"
| "swaps_append key r ((key', rs) # rest) =
     (if key' = key then (key', rs @ [r]) # rest else (key', rs) # swaps_append key r rest)"

text \<open>\<open>swaps[key]\<close>; the source reads it only for keys that are present.\<close>

definition swaps_get :: "('k \<times> 'r list) list \<Rightarrow> 'k \<Rightarrow> 'r list" where
  "swaps_get swaps key = (case map_of swaps key of None \<Rightarrow> [] | Some rs \<Rightarrow> rs)"

text \<open>
  The first loop of \<open>match_student_pairs\<close>. The dictionary \<open>student_lookup\<close> is written
  there and never read, so it is left out.
\<close>

fun partition_swaps ::
  "('i, 'g) student list \<Rightarrow> (('g \<times> 'g) \<times> ('i, 'g) student list) list
    \<Rightarrow> (('g \<times> 'g) \<times> ('i, 'g) student list) list" where
  "partition_swaps [] swaps = swaps"
| "partition_swaps (record # students_info) swaps =
     (if current_group record = desired_group record
      then partition_swaps students_info swaps
      else partition_swaps students_info
             (swaps_append (current_group record, desired_group record) record swaps))"

text \<open>The flag \<open>valid\<close> computed for a pair of records.\<close>

definition valid :: "('i, 'g) student \<Rightarrow> ('i, 'g) student \<Rightarrow> bool" where
  "valid record_i record_j =
     (let valid = True;
          valid = (if \<not> accept_swap record_i \<and> teammate_id record_i \<noteq> Some (student_id record_j)
                   then False else valid);
          valid = (if \<not> accept_swap record_j \<and> teammate_id record_j \<noteq> Some (student_id record_i)
                   then False else valid)
      in valid)"

text \<open>The loop \<open>for record_j in V\<close>.\<close>

fun add_edges ::
  "('i, 'g) student \<Rightarrow> ('i, 'g) student list \<Rightarrow> ('i \<Rightarrow> 'i list) \<Rightarrow> ('i \<Rightarrow> 'i list)" where
  "add_edges record_i [] graph = graph"
| "add_edges record_i (record_j # V) graph =
     add_edges record_i V
       (if valid record_i record_j
        then graph(student_id record_i := graph (student_id record_i) @ [student_id record_j])
        else graph)"

text \<open>The loop \<open>for record_i in U\<close>.\<close>

fun build_graph ::
  "('i, 'g) student list \<Rightarrow> ('i, 'g) student list \<Rightarrow> ('i \<Rightarrow> 'i list) \<Rightarrow> 'i list
    \<Rightarrow> ('i \<Rightarrow> 'i list) \<times> 'i list" where
  "build_graph [] V graph left_ids = (graph, left_ids)"
| "build_graph (record_i # U) V graph left_ids =
     build_graph U V (add_edges record_i V graph) (left_ids @ [student_id record_i])"

text \<open>\<open>tuple(sorted([student_i, student_j]))\<close>: the sort is stable.\<close>

definition paired :: "'i::linorder \<times> 'i \<Rightarrow> 'i \<times> 'i" where
  "paired p = (case p of (student_i, student_j) \<Rightarrow>
                 if student_j < student_i then (student_j, student_i) else (student_i, student_j))"

text \<open>
  The loop over \<open>list(swaps.keys())\<close>. The result is \<open>None\<close> when a call of
  \<open>hopcroft_karp\<close> does not return.
\<close>

fun match_loop ::
  "(('g \<times> 'g) \<times> ('i::linorder, 'g) student list) list \<Rightarrow> ('g \<times> 'g) list \<Rightarrow> ('g \<times> 'g) set
    \<Rightarrow> ('i \<times> 'i) list \<Rightarrow> ('i \<times> 'i) list option" where
  "match_loop swaps [] processed_pairs paired_matches = Some paired_matches"
| "match_loop swaps ((group_A, group_B) # keys) processed_pairs paired_matches =
     (if (group_A, group_B) \<in> processed_pairs
      then match_loop swaps keys processed_pairs paired_matches
      else if (group_B, group_A) \<notin> fst ` set swaps
      then match_loop swaps keys (insert (group_A, group_B) processed_pairs) paired_matches
      else
        (case build_graph (swaps_get swaps (group_A, group_B)) (swaps_get swaps (group_B, group_A))
                (\<lambda>_. []) [] of
           (graph, left_ids) \<Rightarrow>
             if left_ids = []
             then match_loop swaps keys
                    (insert (group_B, group_A) (insert (group_A, group_B) processed_pairs))
                    paired_matches
             else
               (case hopcroft_karp graph left_ids of
                  None \<Rightarrow> None
                | Some ml \<Rightarrow>
                    match_loop swaps keys
                      (insert (group_B, group_A) (insert (group_A, group_B) processed_pairs))
                      (paired_matches @ map paired ml))))"

definition match_student_pairs :: "('i::linorder, 'g) student list \<Rightarrow> ('i \<times> 'i) list option" where
  "match_student_pairs students_info =
     (let swaps = partition_swaps students_info [] in
      match_loop swaps (map fst swaps) {} [])"

section \<open>The recursion limit of the interpreter\<close>

text \<open>
  The definitions above run \<open>dfs\<close> on an unbounded stack: they fit the runs whose
  recursion stays shallow, such as those started by \<open>match_student_pairs\<close> on pairwise
  distinct ids. The interpreter bounds the depth of the call stack and raises
  \<open>RecursionError\<close> when a call would exceed it. The definitions below are the same code
  with the frames counted: \<open>limit\<close> is the number of frames that the body of
  \<open>hopcroft_karp\<close> may still open (the recursion limit of the interpreter minus the frames
  of the callers). Every call of \<open>bfs\<close> and of \<open>dfs\<close> opens one frame, also the call
  \<open>dfs(None)\<close> at the end of an augmenting path; \<open>bfs\<close> calls no function of the
  program.
\<close>

datatype error = RecursionError

text \<open>
  The loop of \<open>dfs(u)\<close> when \<open>frames\<close> more frames may be opened below the frame of
  this call.
\<close>

fun dfs_loop_lim ::
  "nat \<Rightarrow> ('a \<Rightarrow> 'b list) \<Rightarrow> 'a \<Rightarrow> 'b list \<Rightarrow> ('a, 'b) hk_state
    \<Rightarrow> error + bool \<times> ('a, 'b) hk_state" where
  "dfs_loop_lim frames graph u [] s = Inr (False, s\<lparr>dist := (dist s)(Some u := \<infinity>)\<rparr>)"
| "dfs_loop_lim frames graph u (v # vs') s =
     (let u_prime = match_right s v in
      if dist s u_prime = dist s (Some u) + 1
      then
        (case (case frames of
                 0 \<Rightarrow> Inl RecursionError
               | Suc frames' \<Rightarrow>
                   (case u_prime of
                      None \<Rightarrow> Inr (True, s)
                    | Some w \<Rightarrow> dfs_loop_lim frames' graph w (graph w) s)) of
           Inl e \<Rightarrow> Inl e
         | Inr (found, s') \<Rightarrow>
             if found
             then Inr (True, s'\<lparr>match_left := AList.update u v (match_left s'),
                                  match_right := (match_right s')(v \<mapsto> u)\<rparr>)
             else dfs_loop_lim frames graph u vs' s')
      else dfs_loop_lim frames graph u vs' s)"

text \<open>A call \<open>dfs(u)\<close> from the body of \<open>hopcroft_karp\<close>, for a node \<open>u\<close>.\<close>

definition dfs_lim ::
  "nat \<Rightarrow> ('a \<Rightarrow> 'b list) \<Rightarrow> 'a \<Rightarrow> ('a, 'b) hk_state \<Rightarrow> error + bool \<times> ('a, 'b) hk_state" where
  "dfs_lim limit graph u s =
     (case limit of
        0 \<Rightarrow> Inl RecursionError
      | Suc frames \<Rightarrow> dfs_loop_lim frames graph u (graph u) s)"

fun dfs_phase_lim ::
  "nat \<Rightarrow> ('a \<Rightarrow> 'b list) \<Rightarrow> 'a list \<Rightarrow> ('a, 'b) hk_state \<Rightarrow> nat
    \<Rightarrow> error + ('a, 'b) hk_state \<times> nat" where
  "dfs_phase_lim limit graph [] s matching_size = Inr (s, matching_size)"
| "dfs_phase_lim limit graph (u # us) s matching_size =
     (if u \<notin> fst ` set (match_left s)
      then (case dfs_lim limit graph u s of
              Inl e \<Rightarrow> Inl e
            | Inr (found, s') \<Rightarrow>
                dfs_phase_lim limit graph us s' (if found then matching_size + 1 else matching_size))
      else dfs_phase_lim limit graph us s matching_size)"

text \<open>The loop \<open>while bfs()\<close>; the result is \<open>None\<close> when the loop does not end.\<close>

partial_function (option) hk_loop_lim ::
  "nat \<Rightarrow> ('a \<Rightarrow> 'b list) \<Rightarrow> 'a list \<Rightarrow> ('a, 'b) hk_state \<Rightarrow> nat
    \<Rightarrow> (error + ('a, 'b) hk_state \<times> nat) option" where
  [code]: "hk_loop_lim limit graph left_nodes s matching_size =
     (case limit of
        0 \<Rightarrow> Some (Inl RecursionError)
      | Suc frames \<Rightarrow>
          Option.bind (bfs graph left_nodes s)
            (\<lambda>(reached, s').
               if reached
               then (case dfs_phase_lim limit graph left_nodes s' matching_size of
                       Inl e \<Rightarrow> Some (Inl e)
                     | Inr (s'', matching_size') \<Rightarrow>
                         hk_loop_lim limit graph left_nodes s'' matching_size')
               else Some (Inr (s', matching_size))))"

definition hopcroft_karp_lim ::
  "nat \<Rightarrow> ('a \<Rightarrow> 'b list) \<Rightarrow> 'a list \<Rightarrow> (error + ('a \<times> 'b) list) option" where
  "hopcroft_karp_lim limit graph left_nodes =
     map_option (map_sum id (\<lambda>(s, matching_size). match_left s))
       (hk_loop_lim limit graph left_nodes hk_init 0)"

section \<open>Concrete inputs\<close>

text \<open>Scenarios 1 and 5 of the specification.\<close>

definition scenario1 :: "(nat, string) student list" where
  "scenario1 =
     [\<lparr>student_id = 1, current_group = ''G1'', desired_group = ''G2'', accept_swap = True, teammate_id = None\<rparr>,
      \<lparr>student_id = 2, current_group = ''G2'', desired_group = ''G1'', accept_swap = True, teammate_id = None\<rparr>]"

definition scenario5 :: "(nat, string) student list" where
  "scenario5 =
     [\<lparr>student_id = 8, current_group = ''G1'', desired_group = ''G2'', accept_swap = False, teammate_id = None\<rparr>]"

text \<open>
  A graph on which the first round matches node 1 to node 10 and the second round
  has to move node 1 over to node 20 to match node 2.
\<close>

definition augment_graph :: "nat \<Rightarrow> nat list" where
  "augment_graph = (\<lambda>_. [])(1 := [10, 20], 2 := [10])"

text \<open>Scenario 2: two restrictive requests that name each other.\<close>

definition scenario2 :: "(nat, string) student list" where
  "scenario2 =
     [\<lparr>student_id = 3, current_group = ''G1'', desired_group = ''G2'', accept_swap = False, teammate_id = Some 4\<rparr>,
      \<lparr>student_id = 4, current_group = ''G2'', desired_group = ''G1'', accept_swap = False, teammate_id = Some 3\<rparr>]"

text \<open>Scenario 4 (a request that is already satisfied), followed by scenario 1.\<close>

definition scenario4 :: "(nat, string) student list" where
  "scenario4 =
     \<lparr>student_id = 7, current_group = ''G1'', desired_group = ''G1'', accept_swap = True, teammate_id = None\<rparr>
     # scenario1"

text \<open>Four flexible requests in two partitions: between G1 and G2, and between G2 and G3.\<close>

definition two_partitions :: "(nat, string) student list" where
  "two_partitions =
     [\<lparr>student_id = 1, current_group = ''G1'', desired_group = ''G2'', accept_swap = True, teammate_id = None\<rparr>,
      \<lparr>student_id = 3, current_group = ''G2'', desired_group = ''G3'', accept_swap = True, teammate_id = None\<rparr>,
      \<lparr>student_id = 2, current_group = ''G2'', desired_group = ''G1'', accept_swap = True, teammate_id = None\<rparr>,
      \<lparr>student_id = 4, current_group = ''G3'', desired_group = ''G2'', accept_swap = True, teammate_id = None\<rparr>]"

text \<open>
  A list of left nodes that names node 3 twice, as \<open>match_student_pairs\<close> builds it
  from two records with the id 3.
\<close>

definition repeated_graph :: "nat \<Rightarrow> nat list" where
  "repeated_graph = (\<lambda>_. [])(1 := [10], 2 := [20, 30], 3 := [10], 4 := [20])"

definition repeated_nodes :: "nat list" where
  "repeated_nodes = [1, 2, 3, 3, 4]"

section \<open>Specification predicates and invariants\<close>

subsection \<open>The recursion of dfs\<close>

abbreviation add_match :: "'a \<Rightarrow> 'b \<Rightarrow> ('a, 'b) hk_state \<Rightarrow> ('a, 'b) hk_state" where
  "add_match u v s \<equiv> s\<lparr>match_left := AList.update u v (match_left s),
                        match_right := (match_right s)(v \<mapsto> u)\<rparr>"

abbreviation mark_dead :: "'a \<Rightarrow> ('a, 'b) hk_state \<Rightarrow> ('a, 'b) hk_state" where
  "mark_dead u s \<equiv> s\<lparr>dist := (dist s)(Some u := \<infinity>)\<rparr>"

subsection \<open>Distances and edges along dfs\<close>

definition dist_step :: "'a \<Rightarrow> ('a, 'b) hk_state \<Rightarrow> ('a, 'b) hk_state \<Rightarrow> bool" where
  "dist_step u s s' \<longleftrightarrow>
     (\<forall>x. dist s' x = dist s x \<or>
          (dist s' x = \<infinity> \<and> x \<noteq> None \<and> (x = Some u \<or> dist s (Some u) < dist s x)))"

definition basic_inv :: "('a \<Rightarrow> 'b list) \<Rightarrow> 'a list \<Rightarrow> ('a, 'b) hk_state \<Rightarrow> bool" where
  "basic_inv graph left_nodes s \<longleftrightarrow>
     distinct (map fst (match_left s)) \<and>
     (\<forall>u v. map_of (match_left s) u = Some v \<longrightarrow> u \<in> set left_nodes \<and> v \<in> set (graph u)) \<and>
     (\<forall>v u. match_right s v = Some u \<longrightarrow> u \<in> set left_nodes)"

subsection \<open>Augmentation along dfs\<close>

abbreviation left_map :: "('a, 'b) hk_state \<Rightarrow> 'a \<rightharpoonup> 'b" where
  "left_map s \<equiv> map_of (match_left s)"

definition cons :: "('a, 'b) hk_state \<Rightarrow> bool" where
  "cons s \<longleftrightarrow> distinct (map fst (match_left s)) \<and>
     (\<forall>v x. match_right s v = Some x \<longleftrightarrow> left_map s x = Some v)"

definition aug :: "'a \<Rightarrow> 'b list \<Rightarrow> ('a, 'b) hk_state \<Rightarrow> ('a, 'b) hk_state \<Rightarrow> bool" where
  "aug u vs s s' \<longleftrightarrow>
     distinct (map fst (match_left s')) \<and>
     map fst (match_left s') =
       (if u \<in> fst ` set (match_left s) then map fst (match_left s) else map fst (match_left s) @ [u]) \<and>
     (\<exists>v \<in> set vs. left_map s' u = Some v) \<and>
     (\<forall>x. x \<noteq> u \<and> dist s (Some x) \<le> dist s (Some u) \<longrightarrow> left_map s' x = left_map s x) \<and>
     (\<forall>v x. left_map s u \<noteq> Some v \<longrightarrow> (match_right s' v = Some x \<longleftrightarrow> left_map s' x = Some v)) \<and>
     (\<forall>v0. left_map s u = Some v0 \<longrightarrow> match_right s' v0 = Some u \<and> (\<forall>x. left_map s' x \<noteq> Some v0))"

subsection \<open>Layered reachability and termination of dfs\<close>

inductive good :: "('a \<Rightarrow> 'b list) \<Rightarrow> ('a, 'b) hk_state \<Rightarrow> 'a option \<Rightarrow> bool"
  for graph :: "'a \<Rightarrow> 'b list" and s :: "('a, 'b) hk_state" where
  sentinel: "dist s None \<noteq> \<infinity> \<Longrightarrow> good graph s None"
| step: "v \<in> set (graph u) \<Longrightarrow> dist s (Some u) \<noteq> \<infinity> \<Longrightarrow>
         dist s (match_right s v) = dist s (Some u) + 1 \<Longrightarrow>
         good graph s (match_right s v) \<Longrightarrow> good graph s (Some u)"

definition prune :: "('a \<Rightarrow> 'b list) \<Rightarrow> ('a, 'b) hk_state \<Rightarrow> ('a, 'b) hk_state \<Rightarrow> bool" where
  "prune graph s s' \<longleftrightarrow> match_left s' = match_left s \<and> match_right s' = match_right s \<and>
     (\<forall>x. dist s' x = dist s x \<or> (dist s' x = \<infinity> \<and> \<not> good graph s x))"

text \<open>A lead: an edge out of \<open>u\<close> that the layered search may follow to the sentinel.\<close>

definition lead :: "('a \<Rightarrow> 'b list) \<Rightarrow> ('a, 'b) hk_state \<Rightarrow> 'a \<Rightarrow> 'b \<Rightarrow> bool" where
  "lead graph s u v \<longleftrightarrow> v \<in> set (graph u) \<and>
     dist s (match_right s v) = dist s (Some u) + 1 \<and> good graph s (match_right s v)"

definition bounded :: "nat \<Rightarrow> ('a, 'b) hk_state \<Rightarrow> bool" where
  "bounded K s \<longleftrightarrow> (\<forall>x. dist s x \<noteq> \<infinity> \<longrightarrow> dist s x \<le> enat K)"

subsection \<open>The breadth-first phase\<close>

definition bfs_inv ::
  "('a \<Rightarrow> 'b list) \<Rightarrow> ('b \<rightharpoonup> 'a) \<Rightarrow> 'a option set \<Rightarrow> 'a option set \<Rightarrow> ('a option \<Rightarrow> enat)
    \<Rightarrow> 'a option list \<Rightarrow> bool" where
  "bfs_inv graph mr X F d q \<longleftrightarrow>
     (\<forall>x \<in> set q. d x \<noteq> \<infinity>) \<and>
     (\<forall>w. d (Some w) \<noteq> \<infinity> \<and> Some w \<notin> set q \<and> d (Some w) < d None \<longrightarrow>
          (\<forall>v \<in> set (graph w). d (mr v) \<noteq> \<infinity>)) \<and>
     (\<forall>x. d x \<noteq> \<infinity> \<longrightarrow> (d x = 0 \<and> x \<in> F) \<or>
          (\<exists>w v. d x = d (Some w) + 1 \<and> v \<in> set (graph w) \<and> mr v = x \<and> d (Some w) \<noteq> \<infinity>)) \<and>
     (\<forall>x. d x \<noteq> \<infinity> \<longrightarrow> x \<in> X)"

subsection \<open>One call of bfs\<close>

abbreviation nodes :: "'a list \<Rightarrow> 'a option set" where
  "nodes left_nodes \<equiv> insert None (Some ` set left_nodes)"

abbreviation free_nodes :: "'a list \<Rightarrow> ('a, 'b) hk_state \<Rightarrow> 'a option set" where
  "free_nodes left_nodes s \<equiv> Some ` {u \<in> set left_nodes. left_map s u = None}"

definition hk_inv :: "('a \<Rightarrow> 'b list) \<Rightarrow> 'a list \<Rightarrow> ('a, 'b) hk_state \<Rightarrow> bool" where
  "hk_inv graph left_nodes s \<longleftrightarrow>
     cons s \<and> basic_inv graph left_nodes s \<and> (\<forall>x. dist s x \<noteq> \<infinity> \<longrightarrow> x \<in> nodes left_nodes)"

subsection \<open>The depth-first phase\<close>

definition phase_pre ::
  "('a \<Rightarrow> 'b list) \<Rightarrow> 'a list \<Rightarrow> nat \<Rightarrow> 'a list \<Rightarrow> ('a, 'b) hk_state \<Rightarrow> bool" where
  "phase_pre graph left_nodes K us s \<longleftrightarrow>
     hk_inv graph left_nodes s \<and> set us \<subseteq> set left_nodes \<and> distinct us \<and> bounded K s \<and>
     (\<forall>u \<in> set us. left_map s u = None \<longrightarrow> dist s (Some u) = 0)"

subsection \<open>Rounds and the outer loop\<close>

definition final :: "('a \<Rightarrow> 'b list) \<Rightarrow> 'a list \<Rightarrow> ('a, 'b) hk_state \<Rightarrow> bool" where
  "final graph left_nodes s \<longleftrightarrow> hk_inv graph left_nodes s \<and> dist s None = \<infinity> \<and>
     bfs_inv graph (match_right s) (nodes left_nodes) (free_nodes left_nodes s) (dist s) [] \<and>
     (\<forall>u \<in> set left_nodes. left_map s u = None \<longrightarrow> dist s (Some u) = 0)"

subsection \<open>Maximality\<close>

definition edges :: "('a \<Rightarrow> 'b list) \<Rightarrow> 'a list \<Rightarrow> ('a \<times> 'b) set" where
  "edges graph left_nodes = {(u, v). u \<in> set left_nodes \<and> v \<in> set (graph u)}"

definition matching :: "('a \<Rightarrow> 'b list) \<Rightarrow> 'a list \<Rightarrow> ('a \<times> 'b) set \<Rightarrow> bool" where
  "matching graph left_nodes M \<longleftrightarrow> M \<subseteq> edges graph left_nodes \<and>
     (\<forall>e \<in> M. \<forall>e' \<in> M. fst e = fst e' \<or> snd e = snd e' \<longrightarrow> e = e')"

subsection \<open>Partitions, graphs and the origin of a pair\<close>

abbreviation active :: "('i, 'g) student \<Rightarrow> bool" where
  "active r \<equiv> current_group r \<noteq> desired_group r"

abbreviation direction :: "('i, 'g) student \<Rightarrow> 'g \<times> 'g" where
  "direction r \<equiv> (current_group r, desired_group r)"

text \<open>Where a pair of the output comes from.\<close>

definition origin :: "('i::linorder, 'g) student list \<Rightarrow> 'i \<times> 'i \<Rightarrow> bool" where
  "origin xs p \<longleftrightarrow>
     (\<exists>r_i r_j. r_i \<in> set xs \<and> r_j \<in> set xs \<and> active r_i \<and>
        direction r_j = (desired_group r_i, current_group r_i) \<and> valid r_i r_j \<and>
        p = paired (student_id r_i, student_id r_j))"

subsection \<open>Ids across the output\<close>

text \<open>The ids of a list of pairs, in order.\<close>

definition ids :: "('i \<times> 'i) list \<Rightarrow> 'i list" where
  "ids ps = concat (map (\<lambda>p. [fst p, snd p]) ps)"

definition swapped :: "'g \<times> 'g \<Rightarrow> 'g \<times> 'g" where
  "swapped k = (snd k, fst k)"

definition unique_inv ::
  "('i::linorder, 'g) student list \<Rightarrow> ('g \<times> 'g) set \<Rightarrow> ('i \<times> 'i) list \<Rightarrow> bool" where
  "unique_inv xs proc acc \<longleftrightarrow>
     distinct (ids acc) \<and>
     (\<forall>x \<in> set (ids acc). \<exists>r \<in> set xs. student_id r = x \<and> direction r \<in> proc) \<and>
     (\<forall>k \<in> proc. swapped k \<in> proc \<or> swapped k \<notin> fst ` set (partition_swaps xs []))"

subsection \<open>Partitions with an eligible pair\<close>

definition productive ::
  "(('g \<times> 'g) \<times> ('i, 'g) student list) list \<Rightarrow> 'g \<Rightarrow> 'g \<Rightarrow> bool" where
  "productive swaps X Y \<longleftrightarrow>
     (\<forall>graph left_ids. build_graph (swaps_get swaps (X, Y)) (swaps_get swaps (Y, X)) (\<lambda>_. []) []
         = (graph, left_ids) \<longrightarrow>
       left_ids \<noteq> [] \<and> (\<forall>ml. hopcroft_karp graph left_ids = Some ml \<longrightarrow> ml \<noteq> []))"

section \<open>Proofs\<close>

subsection \<open>The recursion of dfs\<close>

lemma dfs_loop_Nil: "dfs_loop graph u [] s = Some (False, mark_dead u s)"
  by (subst dfs_loop.simps) simp

lemma dfs_loop_Skip:
  "dist s (match_right s v) \<noteq> dist s (Some u) + 1 \<Longrightarrow>
   dfs_loop graph u (v # vs) s = dfs_loop graph u vs s"
  by (subst dfs_loop.simps) simp

lemma dfs_loop_Hit:
  "match_right s v = None \<Longrightarrow> dist s None = dist s (Some u) + 1 \<Longrightarrow>
   dfs_loop graph u (v # vs) s = Some (True, add_match u v s)"
  by (subst dfs_loop.simps) simp

lemma dfs_loop_Succ:
  "match_right s v = Some w \<Longrightarrow> dist s (Some w) = dist s (Some u) + 1 \<Longrightarrow>
   dfs_loop graph w (graph w) s = Some (True, s') \<Longrightarrow>
   dfs_loop graph u (v # vs) s = Some (True, add_match u v s')"
  by (subst dfs_loop.simps) simp

lemma dfs_loop_Fail:
  "match_right s v = Some w \<Longrightarrow> dist s (Some w) = dist s (Some u) + 1 \<Longrightarrow>
   dfs_loop graph w (graph w) s = Some (False, s') \<Longrightarrow>
   dfs_loop graph u (v # vs) s = dfs_loop graph u vs s'"
  by (subst dfs_loop.simps) simp

lemma dfs_loop_None:
  "match_right s v = Some w \<Longrightarrow> dist s (Some w) = dist s (Some u) + 1 \<Longrightarrow>
   dfs_loop graph w (graph w) s = None \<Longrightarrow>
   dfs_loop graph u (v # vs) s = None"
  by (subst dfs_loop.simps) simp

lemma dfs_loop_induct [consumes 1, case_names Nil Skip Hit Succ Fail]:
  assumes run: "dfs_loop graph u vs s = Some r"
    and Nil: "\<And>u s. P u [] s (False, mark_dead u s)"
    and Skip: "\<And>u v vs s r. dist s (match_right s v) \<noteq> dist s (Some u) + 1 \<Longrightarrow>
        dfs_loop graph u vs s = Some r \<Longrightarrow> P u vs s r \<Longrightarrow> P u (v # vs) s r"
    and Hit: "\<And>u v vs s. match_right s v = None \<Longrightarrow> dist s None = dist s (Some u) + 1 \<Longrightarrow>
        P u (v # vs) s (True, add_match u v s)"
    and Succ: "\<And>u v vs s w s'. match_right s v = Some w \<Longrightarrow>
        dist s (Some w) = dist s (Some u) + 1 \<Longrightarrow>
        dfs_loop graph w (graph w) s = Some (True, s') \<Longrightarrow> P w (graph w) s (True, s') \<Longrightarrow>
        P u (v # vs) s (True, add_match u v s')"
    and Fail: "\<And>u v vs s w s' r. match_right s v = Some w \<Longrightarrow>
        dist s (Some w) = dist s (Some u) + 1 \<Longrightarrow>
        dfs_loop graph w (graph w) s = Some (False, s') \<Longrightarrow> P w (graph w) s (False, s') \<Longrightarrow>
        dfs_loop graph u vs s' = Some r \<Longrightarrow> P u vs s' r \<Longrightarrow> P u (v # vs) s r"
  shows "P u vs s r"
proof -
  have "graph = graph \<longrightarrow> dfs_loop graph u vs s = Some r \<and> P u vs s r"
  proof (rule dfs_loop.raw_induct
      [where P = "\<lambda>g u vs s r. g = graph \<longrightarrow> dfs_loop graph u vs s = Some r \<and> P u vs s r",
        OF _ run])
    fix f g u vs s r
    assume IH0: "\<And>g u vs s r. f g u vs s = Some r \<Longrightarrow>
        g = graph \<longrightarrow> dfs_loop graph u vs s = Some r \<and> P u vs s r"
      and eq0: "(case vs of
        [] \<Rightarrow> Some (False, mark_dead u s)
      | v # vs' \<Rightarrow>
          (let u_prime = match_right s v in
           if dist s u_prime = dist s (Some u) + 1
           then
             Option.bind
               (case u_prime of
                  None \<Rightarrow> Some (True, s)
                | Some w \<Rightarrow> f g w (g w) s)
               (\<lambda>(found, s').
                  if found
                  then Some (True, add_match u v s')
                  else f g u vs' s')
           else f g u vs' s)) = Some r"
    show "g = graph \<longrightarrow> dfs_loop graph u vs s = Some r \<and> P u vs s r"
    proof
      assume g: "g = graph"
      have IH: "dfs_loop graph u vs s = Some r \<and> P u vs s r" if "f graph u vs s = Some r"
        for u vs s r using IH0 [OF that] by simp
      note eq = eq0 [unfolded g]
      show "dfs_loop graph u vs s = Some r \<and> P u vs s r"
      proof (cases vs)
        case Nil
        with eq have "r = (False, mark_dead u s)" by simp
        with Nil show ?thesis using assms(2) dfs_loop_Nil by metis
      next
        case (Cons v vs')
        show ?thesis
        proof (cases "dist s (match_right s v) = dist s (Some u) + 1")
          case False
          with eq Cons have "f graph u vs' s = Some r" by simp
          from IH [OF this] False Cons show ?thesis
            using Skip dfs_loop_Skip by metis
        next
          case cond: True
          show ?thesis
          proof (cases "match_right s v")
            case None
            with eq Cons cond have "r = (True, add_match u v s)" by simp
            with None cond Cons show ?thesis
              using Hit [of s v u vs'] dfs_loop_Hit [of s v u graph vs'] by simp
          next
            case (Some w)
            with eq Cons cond obtain b s1 where
              sub: "f graph w (graph w) s = Some (b, s1)" and
              rest: "(if b then Some (True, add_match u v s1) else f graph u vs' s1) = Some r"
              by (auto simp: Option.bind_eq_Some_conv)
            from IH [OF sub] have sub': "dfs_loop graph w (graph w) s = Some (b, s1)"
              and Psub: "P w (graph w) s (b, s1)" by simp_all
            show ?thesis
            proof (cases b)
              case True
              with rest have "r = (True, add_match u v s1)" by simp
              with Some cond Cons sub' Psub True show ?thesis
                using Succ [of s v w u s1 vs'] dfs_loop_Succ [of s v w u graph s1 vs'] by simp
            next
              case False
              with rest have "f graph u vs' s1 = Some r" by simp
              from IH [OF this] have "dfs_loop graph u vs' s1 = Some r" "P u vs' s1 r" by simp_all
              with Some cond Cons sub' Psub False show ?thesis
                using Fail [of s v w u s1 vs' r] dfs_loop_Fail [of s v w u graph s1 vs'] by simp
            qed
          qed
        qed
      qed
    qed
  qed
  with run show ?thesis by simp
qed

subsection \<open>Distances and edges along dfs\<close>

lemma enat_less_plus1: "(a::enat) \<noteq> \<infinity> \<Longrightarrow> a < a + 1"
  by (cases a) (simp_all add: one_enat_def)

lemma enat_plus1_neq: "(a::enat) \<noteq> \<infinity> \<Longrightarrow> a + 1 \<noteq> a"
  by (cases a) (simp_all add: one_enat_def)

lemma enat_plus1_finite: "(a::enat) \<noteq> \<infinity> \<Longrightarrow> a + 1 \<noteq> \<infinity>"
  by (cases a) (simp_all add: one_enat_def)

lemma enat_le_less_plus1: "(b::enat) \<le> a \<Longrightarrow> a \<noteq> \<infinity> \<Longrightarrow> b < a + 1"
  using enat_less_plus1 [of a] by (metis le_less_trans)

lemma dist_step_same: "dist_step u s s' \<Longrightarrow> dist s (Some u) \<noteq> \<infinity> \<Longrightarrow>
    x \<noteq> Some u \<Longrightarrow> dist s x \<le> dist s (Some u) \<Longrightarrow> dist s' x = dist s x"
  unfolding dist_step_def by (metis leD)

lemma dist_step_None: "dist_step u s s' \<Longrightarrow> dist s' None = dist s None"
  unfolding dist_step_def by metis

lemma dfs_dist:
  assumes "dfs_loop graph u vs s = Some r" and "dist s (Some u) \<noteq> \<infinity>"
  shows "dist_step u s (snd r)"
  using assms
proof (induction rule: dfs_loop_induct)
  case (Nil u s)
  then show ?case by (simp add: dist_step_def)
next
  case (Skip u v vs s r)
  then show ?case by simp
next
  case (Hit u v vs s)
  then show ?case by (simp add: dist_step_def)
next
  case (Succ u v vs s w s')
  from Succ.prems Succ.hyps(2) have fin: "dist s (Some w) \<noteq> \<infinity>" and lt: "dist s (Some u) < dist s (Some w)"
    by (simp_all add: enat_plus1_finite enat_less_plus1)
  from Succ.IH [OF fin] have "dist_step w s s'" by simp
  with lt show ?case unfolding dist_step_def by (simp, metis less_trans)
next
  case (Fail u v vs s w s' r)
  from Fail.prems Fail.hyps(2) have fin: "dist s (Some w) \<noteq> \<infinity>" and lt: "dist s (Some u) < dist s (Some w)"
    by (simp_all add: enat_plus1_finite enat_less_plus1)
  from Fail.IH(1) [OF fin] have 1: "dist_step w s s'" by simp
  from lt have "Some u \<noteq> Some w" by auto
  with dist_step_same [OF 1 fin, of "Some u"] lt have same: "dist s' (Some u) = dist s (Some u)" by simp
  with Fail.prems Fail.IH(2) have 2: "dist_step u s' (snd r)" by simp
  show ?case unfolding dist_step_def
  proof
    fix x
    from 2 have a: "dist (snd r) x = dist s' x \<or>
        (dist (snd r) x = \<infinity> \<and> x \<noteq> None \<and> (x = Some u \<or> dist s' (Some u) < dist s' x))"
      unfolding dist_step_def by blast
    from 1 have b: "dist s' x = dist s x \<or>
        (dist s' x = \<infinity> \<and> x \<noteq> None \<and> (x = Some w \<or> dist s (Some w) < dist s x))"
      unfolding dist_step_def by blast
    from a b same lt show "dist (snd r) x = dist s x \<or>
          (dist (snd r) x = \<infinity> \<and> x \<noteq> None \<and> (x = Some u \<or> dist s (Some u) < dist s x))"
      by (metis less_trans)
  qed
qed

lemma dfs_fail:
  assumes "dfs_loop graph u vs s = Some r" and "\<not> fst r"
  shows "match_left (snd r) = match_left s \<and> match_right (snd r) = match_right s"
  using assms
  by (induction rule: dfs_loop_induct) simp_all

lemma basic_inv_add_match:
  "basic_inv graph left_nodes s \<Longrightarrow> u \<in> set left_nodes \<Longrightarrow> v \<in> set (graph u) \<Longrightarrow>
   basic_inv graph left_nodes (add_match u v s)"
  unfolding basic_inv_def by (auto simp: update_conv' distinct_update)

lemma basic_inv_dist [simp]:
  "basic_inv graph left_nodes (s\<lparr>dist := d\<rparr>) = basic_inv graph left_nodes s"
  unfolding basic_inv_def by simp

lemma dfs_basic:
  assumes "dfs_loop graph u vs s = Some r" and "u \<in> set left_nodes" and "set vs \<subseteq> set (graph u)"
    and "basic_inv graph left_nodes s"
  shows "basic_inv graph left_nodes (snd r)"
  using assms
proof (induction rule: dfs_loop_induct)
  case (Succ u v vs s w s')
  from Succ.prems(3) Succ.hyps(1) have "w \<in> set left_nodes" by (auto simp: basic_inv_def)
  with Succ have "basic_inv graph left_nodes s'" by simp
  with Succ.prems show ?case by (simp add: basic_inv_add_match)
next
  case (Fail u v vs s w s' r)
  from Fail.prems(3) Fail.hyps(1) have "w \<in> set left_nodes" by (auto simp: basic_inv_def)
  with Fail show ?case by simp
qed (simp_all add: basic_inv_add_match)

subsection \<open>Augmentation along dfs\<close>

lemma cons_distinct: "cons s \<Longrightarrow> distinct (map fst (match_left s))"
  unfolding cons_def by blast

lemma cons_right: "cons s \<Longrightarrow> match_right s v = Some x \<longleftrightarrow> left_map s x = Some v"
  unfolding cons_def by blast

lemma cons_inj: "cons s \<Longrightarrow> left_map s x = Some v \<Longrightarrow> left_map s y = Some v \<Longrightarrow> x = y"
  using cons_right [of s v x] cons_right [of s v y] by simp

lemma augD:
  assumes "aug u vs s s'"
  shows "distinct (map fst (match_left s'))"
    and "map fst (match_left s') =
       (if u \<in> fst ` set (match_left s) then map fst (match_left s) else map fst (match_left s) @ [u])"
    and "\<exists>v \<in> set vs. left_map s' u = Some v"
    and "\<And>x. x \<noteq> u \<Longrightarrow> dist s (Some x) \<le> dist s (Some u) \<Longrightarrow> left_map s' x = left_map s x"
    and "\<And>v x. left_map s u \<noteq> Some v \<Longrightarrow> (match_right s' v = Some x \<longleftrightarrow> left_map s' x = Some v)"
    and "\<And>v0. left_map s u = Some v0 \<Longrightarrow> match_right s' v0 = Some u"
    and "\<And>v0 x. left_map s u = Some v0 \<Longrightarrow> left_map s' x \<noteq> Some v0"
  using assms unfolding aug_def by blast+

lemma aug_Hit:
  assumes "cons s" and "match_right s v = None"
  shows "aug u (v # vs) s (add_match u v s)"
proof -
  have nov: "left_map s x \<noteq> Some v" for x
    using cons_right [OF assms(1), of v x] assms(2) by simp
  note inj = cons_inj [OF assms(1)]
  note d = cons_distinct [OF assms(1)]
  note mr = cons_right [OF assms(1)]
  show ?thesis
    unfolding aug_def
  proof (intro conjI)
    show "distinct (map fst (match_left (add_match u v s)))" using d by (simp add: distinct_update)
    show "map fst (match_left (add_match u v s)) =
       (if u \<in> fst ` set (match_left s) then map fst (match_left s) else map fst (match_left s) @ [u])"
      by (simp add: update_keys)
    show "\<exists>v' \<in> set (v # vs). left_map (add_match u v s) u = Some v'" by (simp add: update_conv')
    show "\<forall>x. x \<noteq> u \<and> dist s (Some x) \<le> dist s (Some u) \<longrightarrow> left_map (add_match u v s) x = left_map s x"
      by (simp add: update_conv')
    show "\<forall>v' x. left_map s u \<noteq> Some v' \<longrightarrow>
        (match_right (add_match u v s) v' = Some x \<longleftrightarrow> left_map (add_match u v s) x = Some v')"
      using nov mr by (auto simp: update_conv')
    show "\<forall>v0. left_map s u = Some v0 \<longrightarrow> match_right (add_match u v s) v0 = Some u \<and>
        (\<forall>x. left_map (add_match u v s) x \<noteq> Some v0)"
      using nov mr inj by (auto simp: update_conv')
  qed
qed

lemma aug_Succ:
  assumes c: "cons s" and mrv: "match_right s v = Some w"
    and dw: "dist s (Some w) = dist s (Some u) + 1" and fin: "dist s (Some u) \<noteq> \<infinity>"
    and a: "aug w (graph w) s s1"
  shows "aug u (v # vs) s (add_match u v s1)"
proof -
  from mrv have mlw: "left_map s w = Some v" by (simp add: cons_right [OF c])
  then have wkey: "w \<in> fst ` set (match_left s)" by (metis map_of_eq_None_iff option.distinct(1))
  from dw fin have neq: "u \<noteq> w" using enat_plus1_neq by metis
  from dw fin have le: "dist s (Some u) \<le> dist s (Some w)" using enat_less_plus1 [OF fin] by simp
  from augD(2) [OF a] wkey have keys: "map fst (match_left s1) = map fst (match_left s)" by simp
  note d1 = augD(1) [OF a]
  note frame = augD(4) [OF a]
  from neq le have frame_u: "left_map s1 u = left_map s u" by (simp add: frame)
  have s5: "match_right s1 v' = Some x \<longleftrightarrow> left_map s1 x = Some v'" if "v' \<noteq> v" for v' x
    using augD(5) [OF a, of v' x] mlw that by simp
  have s6: "match_right s1 v = Some w" "\<And>x. left_map s1 x \<noteq> Some v"
    using augD(6) [OF a mlw] augD(7) [OF a mlw] by simp_all
  note inj = cons_inj [OF c]
  have keyset: "fst ` set (match_left s1) = fst ` set (match_left s)"
    using keys by (metis set_map)
  show ?thesis
    unfolding aug_def
  proof (intro conjI)
    show "distinct (map fst (match_left (add_match u v s1)))" using d1 by (simp add: distinct_update)
    show "map fst (match_left (add_match u v s1)) =
       (if u \<in> fst ` set (match_left s) then map fst (match_left s) else map fst (match_left s) @ [u])"
      using keys keyset by (simp add: update_keys)
    show "\<exists>v' \<in> set (v # vs). left_map (add_match u v s1) u = Some v'" by (simp add: update_conv')
    show "\<forall>x. x \<noteq> u \<and> dist s (Some x) \<le> dist s (Some u) \<longrightarrow> left_map (add_match u v s1) x = left_map s x"
    proof (intro allI impI)
      fix x assume x: "x \<noteq> u \<and> dist s (Some x) \<le> dist s (Some u)"
      with dw fin have "x \<noteq> w" using enat_less_plus1 [OF fin] by auto
      moreover from x le have "dist s (Some x) \<le> dist s (Some w)" by (metis order_trans)
      ultimately have "left_map s1 x = left_map s x" by (rule frame)
      with x show "left_map (add_match u v s1) x = left_map s x" by (simp add: update_conv')
    qed
    show "\<forall>v' x. left_map s u \<noteq> Some v' \<longrightarrow>
        (match_right (add_match u v s1) v' = Some x \<longleftrightarrow> left_map (add_match u v s1) x = Some v')"
    proof (intro allI impI)
      fix v' x assume old: "left_map s u \<noteq> Some v'"
      show "match_right (add_match u v s1) v' = Some x \<longleftrightarrow> left_map (add_match u v s1) x = Some v'"
      proof (cases "v' = v")
        case True
        then show ?thesis using s6 by (auto simp: update_conv')
      next
        case False
        then show ?thesis using s5 [OF False] old frame_u by (auto simp: update_conv')
      qed
    qed
    show "\<forall>v0. left_map s u = Some v0 \<longrightarrow> match_right (add_match u v s1) v0 = Some u \<and>
        (\<forall>x. left_map (add_match u v s1) x \<noteq> Some v0)"
    proof (intro allI impI)
      fix v0 assume old: "left_map s u = Some v0"
      with mlw neq inj have v0: "v0 \<noteq> v" by blast
      from s5 [OF v0] frame_u old have r: "match_right s1 v0 = Some u" by simp
      have "left_map s1 x \<noteq> Some v0" if "x \<noteq> u" for x
        using s5 [OF v0, of x] r that by auto
      with r v0 show "match_right (add_match u v s1) v0 = Some u \<and>
        (\<forall>x. left_map (add_match u v s1) x \<noteq> Some v0)"
        by (auto simp: update_conv')
    qed
  qed
qed

lemma aug_mono:
  assumes "aug u vs s s'"
  shows "aug u (v # vs) s s'"
proof -
  from augD(3) [OF assms] have "\<exists>v' \<in> set (v # vs). left_map s' u = Some v'" by auto
  with assms show ?thesis unfolding aug_def by blast
qed

lemma dfs_match:
  assumes "dfs_loop graph u vs s = Some r" and "fst r" and "cons s" and "dist s (Some u) \<noteq> \<infinity>"
  shows "aug u vs s (snd r)"
  using assms
proof (induction rule: dfs_loop_induct)
  case (Nil u s)
  then show ?case by simp
next
  case (Skip u v vs s r)
  then show ?case by (simp add: aug_mono)
next
  case (Hit u v vs s)
  then show ?case by (simp add: aug_Hit)
next
  case (Succ u v vs s w s')
  from Succ.prems Succ.hyps(2) have "dist s (Some w) \<noteq> \<infinity>" by (simp add: enat_plus1_finite)
  with Succ have "aug w (graph w) s s'" by simp
  from aug_Succ [where graph = graph, OF Succ.prems(2) Succ.hyps(1) Succ.hyps(2) Succ.prems(3) this]
  show ?case by simp
next
  case (Fail u v vs s w s' r)
  from Fail.prems Fail.hyps(2) have fin: "dist s (Some w) \<noteq> \<infinity>"
    and lt: "dist s (Some u) < dist s (Some w)"
    by (simp_all add: enat_plus1_finite enat_less_plus1)
  from dfs_fail [OF Fail.hyps(3)] have same: "match_left s' = match_left s" "match_right s' = match_right s"
    by simp_all
  from dfs_dist [OF Fail.hyps(3) fin] have ds: "dist_step w s s'" by simp
  have keep: "dist s' (Some x) = dist s (Some x)" if "dist s (Some x) \<le> dist s (Some u)" for x
  proof -
    from that lt have "Some x \<noteq> Some w" "dist s (Some x) \<le> dist s (Some w)" by auto
    with dist_step_same [OF ds fin] show ?thesis by simp
  qed
  from keep [of u] have du: "dist s' (Some u) = dist s (Some u)" by simp
  from Fail.prems same have "cons s'" by (simp add: cons_def)
  with Fail.IH(2) Fail.prems du have a: "aug u vs s' (snd r)" by simp
  show ?case
    unfolding aug_def
  proof (intro conjI allI impI)
    show "distinct (map fst (match_left (snd r)))" by (rule augD(1) [OF a])
    show "map fst (match_left (snd r)) =
       (if u \<in> fst ` set (match_left s) then map fst (match_left s) else map fst (match_left s) @ [u])"
      using augD(2) [OF a] same by simp
    show "\<exists>v' \<in> set (v # vs). left_map (snd r) u = Some v'" using augD(3) [OF a] by auto
    show "left_map (snd r) x = left_map s x" if "x \<noteq> u \<and> dist s (Some x) \<le> dist s (Some u)" for x
      using augD(4) [OF a, of x] that keep [of x] du same by simp
    show "match_right (snd r) v' = Some x \<longleftrightarrow> left_map (snd r) x = Some v'"
      if "left_map s u \<noteq> Some v'" for v' x
      using augD(5) [OF a, of v' x] that same by simp
    show "match_right (snd r) v0 = Some u" if "left_map s u = Some v0" for v0
      using augD(6) [OF a, of v0] that same by simp
    show "left_map (snd r) x \<noteq> Some v0" if "left_map s u = Some v0" for v0 x
      using augD(7) [OF a, of v0 x] that same by simp
  qed
qed

subsection \<open>Layered reachability and termination of dfs\<close>

lemma good_finite: "good graph s x \<Longrightarrow> dist s x \<noteq> \<infinity>"
  by (induction rule: good.induct) simp_all

lemma prune_good_fwd:
  assumes "prune graph s s'" and "good graph s x"
  shows "good graph s' x"
  using assms(2)
proof (induction rule: good.induct)
  case sentinel
  with assms(1) have "dist s' None \<noteq> \<infinity>"
    unfolding prune_def using good.sentinel [of s graph] by metis
  then show ?case by (rule good.sentinel)
next
  case (step v u)
  have gu: "good graph s (Some u)" using step.hyps by (auto intro: good.step)
  from assms(1) gu have du: "dist s' (Some u) = dist s (Some u)" unfolding prune_def by metis
  from assms(1) step.hyps(4) have dv: "dist s' (match_right s v) = dist s (match_right s v)"
    unfolding prune_def by metis
  from assms(1) have mr: "match_right s' = match_right s" by (simp add: prune_def)
  show ?case
    by (rule good.step [of v]) (use step du dv mr in simp_all)
qed

lemma prune_good_bwd:
  assumes "prune graph s s'" and "good graph s' x"
  shows "good graph s x"
  using assms(2)
proof (induction rule: good.induct)
  case sentinel
  with assms(1) have "dist s None \<noteq> \<infinity>" unfolding prune_def by metis
  then show ?case by (rule good.sentinel)
next
  case (step v u)
  from assms(1) have mr: "match_right s' = match_right s" by (simp add: prune_def)
  from assms(1) step.hyps(2) have du: "dist s' (Some u) = dist s (Some u)" unfolding prune_def by metis
  from good_finite [OF step.hyps(4)] assms(1) have dv: "dist s' (match_right s' v) = dist s (match_right s' v)"
    unfolding prune_def by metis
  show ?case
    by (rule good.step [of v]) (use step du dv mr in simp_all)
qed

lemma prune_good: "prune graph s s' \<Longrightarrow> good graph s' x \<longleftrightarrow> good graph s x"
  using prune_good_fwd prune_good_bwd by metis

lemma prune_refl: "prune graph s s"
  by (simp add: prune_def)

lemma prune_trans:
  assumes "prune graph s s1" and "prune graph s1 s2"
  shows "prune graph s s2"
  unfolding prune_def
proof (intro conjI allI)
  show "match_left s2 = match_left s" "match_right s2 = match_right s"
    using assms by (simp_all add: prune_def)
  fix x
  from assms(2) have "dist s2 x = dist s1 x \<or> (dist s2 x = \<infinity> \<and> \<not> good graph s1 x)"
    unfolding prune_def by blast
  moreover from assms(1) have "dist s1 x = dist s x \<or> (dist s1 x = \<infinity> \<and> \<not> good graph s x)"
    unfolding prune_def by blast
  ultimately show "dist s2 x = dist s x \<or> (dist s2 x = \<infinity> \<and> \<not> good graph s x)"
    using prune_good [OF assms(1), of x] by metis
qed

lemma lead_in: "lead graph s u v \<Longrightarrow> v \<in> set (graph u)"
  by (simp add: lead_def)

lemma good_Some_iff:
  "good graph s (Some u) \<longleftrightarrow> dist s (Some u) \<noteq> \<infinity> \<and> (\<exists>v. lead graph s u v)"
  unfolding lead_def
  by (auto elim: good.cases intro: good.step)

lemma dfs_good:
  assumes "dfs_loop graph u vs s = Some r" and "\<not> fst r" and "dist s (Some u) \<noteq> \<infinity>"
    and "\<forall>v. lead graph s u v \<longrightarrow> v \<in> set vs"
  shows "\<not> good graph s (Some u) \<and> prune graph s (snd r)"
  using assms
proof (induction rule: dfs_loop_induct)
  case (Nil u s)
  then have ng: "\<not> good graph s (Some u)" by (simp add: good_Some_iff)
  then show ?case by (simp add: prune_def)
next
  case (Skip u v vs s r)
  from Skip.hyps(1) have "\<not> lead graph s u v" by (simp add: lead_def)
  with Skip.prems have "\<forall>v. lead graph s u v \<longrightarrow> v \<in> set vs" by auto
  with Skip show ?case by simp
next
  case (Hit u v vs s)
  then show ?case by simp
next
  case (Succ u v vs s w s')
  then show ?case by simp
next
  case (Fail u v vs s w s' r)
  from Fail.prems Fail.hyps(2) have fin: "dist s (Some w) \<noteq> \<infinity>"
    and lt: "dist s (Some u) < dist s (Some w)"
    by (simp_all add: enat_plus1_finite enat_less_plus1)
  from Fail.IH(1) fin have ngw: "\<not> good graph s (Some w)" and p1: "prune graph s s'"
    by (simp_all add: lead_in)
  from dfs_dist [OF Fail.hyps(3) fin] have ds: "dist_step w s s'" by simp
  from lt have "Some u \<noteq> Some w" by auto
  with dist_step_same [OF ds fin, of "Some u"] lt have du: "dist s' (Some u) = dist s (Some u)" by simp
  from p1 have mr: "match_right s' = match_right s" by (simp add: prune_def)
  have leads: "\<forall>v'. lead graph s' u v' \<longrightarrow> v' \<in> set vs"
  proof (intro allI impI)
    fix v' assume l: "lead graph s' u v'"
    then have g': "good graph s' (match_right s v')" by (simp add: lead_def mr)
    then have g: "good graph s (match_right s v')" using prune_good [OF p1] by simp
    with p1 have "dist s' (match_right s v') = dist s (match_right s v')"
      unfolding prune_def by metis
    with l g du mr have "lead graph s u v'" by (simp add: lead_def)
    with Fail.prems have "v' \<in> set (v # vs)" by simp
    moreover have "v' \<noteq> v" using g ngw Fail.hyps(1) by auto
    ultimately show "v' \<in> set vs" by simp
  qed
  from Fail.IH(2) Fail.prems du leads have ng: "\<not> good graph s' (Some u)" and p2: "prune graph s' (snd r)"
    by simp_all
  from ng prune_good [OF p1] prune_trans [OF p1 p2] show ?case by simp
qed

lemma dist_step_bounded: "dist_step u s s' \<Longrightarrow> bounded K s \<Longrightarrow> bounded K s'"
  unfolding dist_step_def bounded_def by metis

lemma dfs_terminates_aux:
  assumes "bounded K s" and "dist s (Some u) = enat n" and "K - n = m"
  shows "\<exists>r. dfs_loop graph u vs s = Some r"
  using assms
proof (induction m arbitrary: u vs s n rule: less_induct)
  case (less m)
  note outer = less.IH
  from less.prems show ?case
  proof (induction vs arbitrary: s)
    case Nil
    show ?case by (rule exI, rule dfs_loop_Nil)
  next
    case (Cons v vs)
    show ?case
    proof (cases "dist s (match_right s v) = dist s (Some u) + 1")
      case False
      with Cons.IH [OF Cons.prems] show ?thesis by (auto simp: dfs_loop_Skip)
    next
      case cond: True
      show ?thesis
      proof (cases "match_right s v")
        case None
        with cond show ?thesis using dfs_loop_Hit [of s v u graph vs] by auto
      next
        case (Some w)
        with cond Cons.prems(2) have dw: "dist s (Some w) = enat (Suc n)"
          by (simp add: one_enat_def)
        with Cons.prems(1) have "Suc n \<le> K" unfolding bounded_def by (metis enat.distinct(1) enat_ord_simps(1))
        with Cons.prems(3) have "K - Suc n < m" by simp
        from outer [OF this Cons.prems(1) dw refl, of "graph w"]
        obtain b s1 where sub: "dfs_loop graph w (graph w) s = Some (b, s1)" by auto
        from Some cond have dw': "dist s (Some w) = dist s (Some u) + 1" by simp
        show ?thesis
        proof (cases b)
          case True
          with dfs_loop_Succ [OF Some dw', of graph s1 vs] sub show ?thesis by auto
        next
          case False
          from dw have fin: "dist s (Some w) \<noteq> \<infinity>" by simp
          from dfs_dist [OF sub fin] have ds: "dist_step w s s1" by simp
          from Cons.prems(2) dw have "Some u \<noteq> Some w" "dist s (Some u) \<le> dist s (Some w)" by auto
          with dist_step_same [OF ds fin, of "Some u"] Cons.prems(2)
          have du: "dist s1 (Some u) = enat n" by simp
          from Cons.IH [OF dist_step_bounded [OF ds Cons.prems(1)] du Cons.prems(3)]
          show ?thesis using dfs_loop_Fail [OF Some dw', of graph s1 vs] sub False by auto
        qed
      qed
    qed
  qed
qed

lemma dfs_terminates:
  assumes "bounded K s" and "dist s (Some u) \<noteq> \<infinity>"
  shows "\<exists>r. dfs_loop graph u vs s = Some r"
proof -
  from assms(2) obtain n where "dist s (Some u) = enat n" by auto
  from dfs_terminates_aux [OF assms(1) this refl] show ?thesis .
qed

subsection \<open>The breadth-first phase\<close>

lemma enat_less_fin: "(a::enat) < b \<Longrightarrow> a \<noteq> \<infinity>"
  by (cases a) simp_all

lemma bfs_init_eq:
  "bfs_init ml us d q =
     (\<lambda>x. case x of None \<Rightarrow> d None
          | Some u \<Rightarrow> if u \<in> set us then (if u \<in> fst ` set ml then \<infinity> else 0) else d (Some u),
      q @ map Some (filter (\<lambda>u. u \<notin> fst ` set ml) us))"
proof (induction us arbitrary: d q)
  case Nil
  show ?case by (auto simp: fun_eq_iff split: option.splits)
next
  case (Cons u us)
  show ?case by (simp add: Cons.IH) (auto simp: fun_eq_iff split: option.splits)
qed

lemma bfs_scan_spec:
  assumes "bfs_scan mr u vs d q = (d', q')" and "d u \<noteq> \<infinity>"
  shows "(\<forall>x. d x \<noteq> \<infinity> \<longrightarrow> d' x = d x) \<and>
         (\<forall>v \<in> set vs. d' (mr v) \<noteq> \<infinity>) \<and>
         (\<forall>x. d' x \<noteq> \<infinity> \<longrightarrow> d x \<noteq> \<infinity> \<or> (x \<in> set q' \<and> (\<exists>v \<in> set vs. mr v = x) \<and> d' x = d u + 1)) \<and>
         set q \<subseteq> set q' \<and>
         (\<forall>x \<in> set q'. x \<in> set q \<or> d' x \<noteq> \<infinity>)"
  using assms
proof (induction vs arbitrary: d q)
  case Nil
  then show ?case by simp
next
  case (Cons v vs)
  show ?case
  proof (cases "d (mr v) = \<infinity>")
    case False
    with Cons.prems have run: "bfs_scan mr u vs d q = (d', q')" by (simp add: Let_def)
    from Cons.IH [OF run Cons.prems(2)] False show ?thesis by auto
  next
    case True
    let ?d1 = "d(mr v := d u + 1)"
    from True Cons.prems have run: "bfs_scan mr u vs ?d1 (q @ [mr v]) = (d', q')" by (simp add: Let_def)
    from True Cons.prems(2) have neq: "mr v \<noteq> u" by auto
    then have d1u: "?d1 u = d u" by simp
    with Cons.prems(2) have fin1: "?d1 u \<noteq> \<infinity>" by simp
    have d1v: "?d1 (mr v) \<noteq> \<infinity>" using Cons.prems(2) by (simp add: enat_plus1_finite)
    note IH = Cons.IH [OF run fin1, unfolded d1u]
    from IH have a: "\<And>x. ?d1 x \<noteq> \<infinity> \<Longrightarrow> d' x = ?d1 x" by blast
    from IH have b: "\<And>v'. v' \<in> set vs \<Longrightarrow> d' (mr v') \<noteq> \<infinity>" by blast
    from IH have c: "\<And>x. d' x \<noteq> \<infinity> \<Longrightarrow> ?d1 x \<noteq> \<infinity> \<or>
        (x \<in> set q' \<and> (\<exists>v \<in> set vs. mr v = x) \<and> d' x = d u + 1)" by blast
    from IH have d: "set (q @ [mr v]) \<subseteq> set q'" by blast
    from IH have e: "\<And>x. x \<in> set q' \<Longrightarrow> x \<in> set (q @ [mr v]) \<or> d' x \<noteq> \<infinity>" by blast
    have dv: "d' (mr v) = d u + 1" using a [OF d1v] by simp
    show ?thesis
    proof (intro conjI allI ballI impI)
      fix x assume "d x \<noteq> \<infinity>"
      with True have "x \<noteq> mr v" by auto
      with a [of x] \<open>d x \<noteq> \<infinity>\<close> show "d' x = d x" by simp
    next
      fix v' assume "v' \<in> set (v # vs)"
      with b dv enat_plus1_finite [OF Cons.prems(2)] show "d' (mr v') \<noteq> \<infinity>"
        by (metis set_ConsD)
    next
      fix x assume fin: "d' x \<noteq> \<infinity>"
      show "d x \<noteq> \<infinity> \<or> (x \<in> set q' \<and> (\<exists>v \<in> set (v # vs). mr v = x) \<and> d' x = d u + 1)"
      proof (cases "x = mr v")
        case True
        with dv d show ?thesis by auto
      next
        case False
        with c [OF fin] show ?thesis by auto
      qed
    next
      show "set q \<subseteq> set q'" using d by auto
    next
      fix x assume "x \<in> set q'"
      from e [OF this] dv enat_plus1_finite [OF Cons.prems(2)] show "x \<in> set q \<or> d' x \<noteq> \<infinity>"
        by (metis Un_iff empty_iff empty_set set_ConsD set_append)
    qed
  qed
qed

lemma bfs_scan_measure:
  assumes "bfs_scan mr u vs d q = (d', q')" and "d u \<noteq> \<infinity>" and "finite X" and "\<forall>v. mr v \<in> X"
  shows "card {x \<in> X. d' x = \<infinity>} + length q' = card {x \<in> X. d x = \<infinity>} + length q"
  using assms(1,2)
proof (induction vs arbitrary: d q)
  case Nil
  then show ?case by simp
next
  case (Cons v vs)
  show ?case
  proof (cases "d (mr v) = \<infinity>")
    case False
    with Cons.prems have run: "bfs_scan mr u vs d q = (d', q')" by (simp add: Let_def)
    from Cons.IH [OF run Cons.prems(2)] show ?thesis .
  next
    case True
    let ?d1 = "d(mr v := d u + 1)"
    from True Cons.prems have run: "bfs_scan mr u vs ?d1 (q @ [mr v]) = (d', q')" by (simp add: Let_def)
    from True Cons.prems(2) have neq: "mr v \<noteq> u" by auto
    then have fin1: "?d1 u \<noteq> \<infinity>" using Cons.prems(2) by simp
    have d1v: "?d1 (mr v) \<noteq> \<infinity>" using Cons.prems(2) by (simp add: enat_plus1_finite)
    have eq: "{x \<in> X. ?d1 x = \<infinity>} = {x \<in> X. d x = \<infinity>} - {mr v}"
      using d1v by auto
    have mem: "mr v \<in> {x \<in> X. d x = \<infinity>}" using True assms(4) by simp
    have fin: "finite {x \<in> X. d x = \<infinity>}" using assms(3) by simp
    from mem fin have "card {x \<in> X. d x = \<infinity>} > 0" by (metis card_gt_0_iff empty_iff)
    with eq mem fin have "card {x \<in> X. ?d1 x = \<infinity>} + 1 = card {x \<in> X. d x = \<infinity>}"
      by (simp add: card_Diff_singleton)
    with Cons.IH [OF run fin1] show ?thesis by simp
  qed
qed

lemma bfs_invD:
  assumes "bfs_inv graph mr X F d q"
  shows "\<And>x. x \<in> set q \<Longrightarrow> d x \<noteq> \<infinity>"
    and "\<And>w v. d (Some w) \<noteq> \<infinity> \<Longrightarrow> Some w \<notin> set q \<Longrightarrow> d (Some w) < d None \<Longrightarrow>
          v \<in> set (graph w) \<Longrightarrow> d (mr v) \<noteq> \<infinity>"
    and "\<And>x. d x \<noteq> \<infinity> \<Longrightarrow> (d x = 0 \<and> x \<in> F) \<or>
          (\<exists>w v. d x = d (Some w) + 1 \<and> v \<in> set (graph w) \<and> mr v = x \<and> d (Some w) \<noteq> \<infinity>)"
    and "\<And>x. d x \<noteq> \<infinity> \<Longrightarrow> x \<in> X"
  using assms unfolding bfs_inv_def by blast+

lemma bfs_inv_pop:
  assumes "bfs_inv graph mr X F d (u # q)" and "\<not> d u < d None"
  shows "bfs_inv graph mr X F d q"
  unfolding bfs_inv_def
proof (intro conjI allI ballI impI)
  fix x assume "x \<in> set q" then show "d x \<noteq> \<infinity>" using bfs_invD(1) [OF assms(1), of x] by simp
next
  fix w v assume h: "d (Some w) \<noteq> \<infinity> \<and> Some w \<notin> set q \<and> d (Some w) < d None" and v: "v \<in> set (graph w)"
  with assms(2) have "Some w \<noteq> u" by auto
  with h have "Some w \<notin> set (u # q)" by simp
  with bfs_invD(2) [OF assms(1), of w v] h v show "d (mr v) \<noteq> \<infinity>" by blast
next
  fix x assume "d x \<noteq> \<infinity>"
  then show "(d x = 0 \<and> x \<in> F) \<or>
          (\<exists>w v. d x = d (Some w) + 1 \<and> v \<in> set (graph w) \<and> mr v = x \<and> d (Some w) \<noteq> \<infinity>)"
    by (rule bfs_invD(3) [OF assms(1)])
next
  fix x assume "d x \<noteq> \<infinity>" then show "x \<in> X" by (rule bfs_invD(4) [OF assms(1)])
qed

lemma bfs_inv_scan:
  assumes inv: "bfs_inv graph mr X F d (Some w # q)" and lt: "d (Some w) < d None"
    and scan: "bfs_scan mr (Some w) (graph w) d q = (d1, q1)" and X: "\<forall>v. mr v \<in> X"
  shows "bfs_inv graph mr X F d1 q1"
proof -
  from lt have fin: "d (Some w) \<noteq> \<infinity>" by (rule enat_less_fin)
  note sp = bfs_scan_spec [OF scan fin]
  from sp have a: "\<And>x. d x \<noteq> \<infinity> \<Longrightarrow> d1 x = d x" by blast
  from sp have b: "\<And>v. v \<in> set (graph w) \<Longrightarrow> d1 (mr v) \<noteq> \<infinity>" by blast
  from sp have c: "\<And>x. d1 x \<noteq> \<infinity> \<Longrightarrow> d x \<noteq> \<infinity> \<or>
      (x \<in> set q1 \<and> (\<exists>v \<in> set (graph w). mr v = x) \<and> d1 x = d (Some w) + 1)" by blast
  from sp have d: "set q \<subseteq> set q1" by blast
  from sp have e: "\<And>x. x \<in> set q1 \<Longrightarrow> x \<in> set q \<or> d1 x \<noteq> \<infinity>" by blast
  show ?thesis
    unfolding bfs_inv_def
  proof (intro conjI allI ballI impI)
    fix x assume "x \<in> set q1"
    from e [OF this] show "d1 x \<noteq> \<infinity>"
      using bfs_invD(1) [OF inv, of x] a [of x] by auto
  next
    fix w' v assume h: "d1 (Some w') \<noteq> \<infinity> \<and> Some w' \<notin> set q1 \<and> d1 (Some w') < d1 None"
      and v: "v \<in> set (graph w')"
    from h c [of "Some w'"] have fin': "d (Some w') \<noteq> \<infinity>" by blast
    then have same: "d1 (Some w') = d (Some w')" by (rule a)
    show "d1 (mr v) \<noteq> \<infinity>"
    proof (cases "w' = w")
      case True
      with v b show ?thesis by simp
    next
      case False
      from h d have notq: "Some w' \<notin> set (Some w # q)" using False by auto
      have "d (Some w') < d None"
      proof (cases "d None = \<infinity>")
        case True
        with fin' show ?thesis by (simp add: less_infinityE)
      next
        case False
        with a [of None] h same show ?thesis by simp
      qed
      from bfs_invD(2) [OF inv fin' notq this v] have "d (mr v) \<noteq> \<infinity>" .
      with a [of "mr v"] show ?thesis by simp
    qed
  next
    fix x assume fx: "d1 x \<noteq> \<infinity>"
    show "(d1 x = 0 \<and> x \<in> F) \<or>
          (\<exists>w v. d1 x = d1 (Some w) + 1 \<and> v \<in> set (graph w) \<and> mr v = x \<and> d1 (Some w) \<noteq> \<infinity>)"
    proof (cases "d x = \<infinity>")
      case True
      with c [OF fx] obtain v where "v \<in> set (graph w)" "mr v = x" "d1 x = d (Some w) + 1" by blast
      with a [OF fin] fin have "d1 x = d1 (Some w) + 1 \<and> v \<in> set (graph w) \<and> mr v = x \<and>
          d1 (Some w) \<noteq> \<infinity>" by metis
      then show ?thesis by blast
    next
      case False
      from bfs_invD(3) [OF inv False] show ?thesis
      proof
        assume "d x = 0 \<and> x \<in> F"
        with a [OF False] show ?thesis by simp
      next
        assume "\<exists>w v. d x = d (Some w) + 1 \<and> v \<in> set (graph w) \<and> mr v = x \<and> d (Some w) \<noteq> \<infinity>"
        then obtain w0 v where p: "d x = d (Some w0) + 1" "v \<in> set (graph w0)" "mr v = x" "d (Some w0) \<noteq> \<infinity>"
          by blast
        with a [OF False] a [OF p(4)] have "d1 x = d1 (Some w0) + 1 \<and> v \<in> set (graph w0) \<and>
            mr v = x \<and> d1 (Some w0) \<noteq> \<infinity>" by metis
        then show ?thesis by blast
      qed
    qed
  next
    fix x assume fx: "d1 x \<noteq> \<infinity>"
    from c [OF fx] show "x \<in> X"
      using bfs_invD(4) [OF inv, of x] X by auto
  qed
qed

lemma bfs_loop_correct:
  assumes "finite X" and "\<forall>v. mr v \<in> X" and "bfs_inv graph mr X F d q"
  shows "\<exists>d'. bfs_loop graph mr d q = Some d' \<and> bfs_inv graph mr X F d' [] \<and>
           (\<forall>x. d x \<noteq> \<infinity> \<longrightarrow> d' x = d x)"
  using assms(3)
proof (induction "card {x \<in> X. d x = \<infinity>} + length q" arbitrary: d q rule: less_induct)
  case less
  show ?case
  proof (cases q)
    case Nil
    with less.prems show ?thesis by (subst bfs_loop.simps) simp
  next
    case (Cons u q')
    show ?thesis
    proof (cases "d u < d None")
      case False
      from bfs_inv_pop [OF less.prems [unfolded Cons] False] have inv': "bfs_inv graph mr X F d q'" .
      have "card {x \<in> X. d x = \<infinity>} + length q' < card {x \<in> X. d x = \<infinity>} + length q"
        using Cons by simp
      from less.hyps [OF this inv'] obtain d' where
        "bfs_loop graph mr d q' = Some d'" "bfs_inv graph mr X F d' []" "\<forall>x. d x \<noteq> \<infinity> \<longrightarrow> d' x = d x"
        by blast
      moreover have "bfs_loop graph mr d q = bfs_loop graph mr d q'"
        using False Cons by (subst bfs_loop.simps) simp
      ultimately show ?thesis by simp
    next
      case True
      then obtain w where u: "u = Some w" by (cases u) auto
      obtain d1 q1 where scan: "bfs_scan mr (Some w) (graph w) d q' = (d1, q1)"
        by (cases "bfs_scan mr (Some w) (graph w) d q'")
      from True u have lt: "d (Some w) < d None" by simp
      then have fin: "d (Some w) \<noteq> \<infinity>" by (rule enat_less_fin)
      from bfs_inv_scan [OF less.prems [unfolded Cons u] lt scan assms(2)]
      have inv1: "bfs_inv graph mr X F d1 q1" .
      from bfs_scan_measure [OF scan fin assms(1,2)] Cons
      have "card {x \<in> X. d1 x = \<infinity>} + length q1 < card {x \<in> X. d x = \<infinity>} + length q" by simp
      from less.hyps [OF this inv1] obtain d' where
        r: "bfs_loop graph mr d1 q1 = Some d'" "bfs_inv graph mr X F d' []" "\<forall>x. d1 x \<noteq> \<infinity> \<longrightarrow> d' x = d1 x"
        by blast
      have "bfs_loop graph mr d q = bfs_loop graph mr d1 q1"
        using True Cons u scan by (subst bfs_loop.simps) simp
      moreover have "\<forall>x. d x \<noteq> \<infinity> \<longrightarrow> d' x = d x"
        using r(3) bfs_scan_spec [OF scan fin] by metis
      ultimately show ?thesis using r by simp
    qed
  qed
qed

subsection \<open>One call of bfs\<close>

lemma hk_inv_init: "hk_inv graph left_nodes hk_init"
  by (simp add: hk_inv_def hk_init_def cons_def basic_inv_def)

lemma hk_inv_right: "hk_inv graph left_nodes s \<Longrightarrow> match_right s v \<in> nodes left_nodes"
  unfolding hk_inv_def basic_inv_def by (cases "match_right s v") auto

lemma bfs_spec:
  assumes "hk_inv graph left_nodes s"
  shows "\<exists>d'. bfs graph left_nodes s = Some (d' None \<noteq> \<infinity>, s\<lparr>dist := d'\<rparr>) \<and>
           bfs_inv graph (match_right s) (nodes left_nodes) (free_nodes left_nodes s) d' [] \<and>
           (\<forall>u \<in> set left_nodes. left_map s u = None \<longrightarrow> d' (Some u) = 0)"
proof -
  let ?free = "\<lambda>u. u \<notin> fst ` set (match_left s)"
  let ?d0 = "(\<lambda>x. case x of None \<Rightarrow> dist s None
          | Some u \<Rightarrow> if u \<in> set left_nodes then (if u \<in> fst ` set (match_left s) then \<infinity> else 0)
                      else dist s (Some u))(None := \<infinity>)"
  let ?q0 = "map Some (filter ?free left_nodes)"
  have free_iff: "?free u \<longleftrightarrow> left_map s u = None" for u
    by (simp add: map_of_eq_None_iff)
  from assms have supp: "\<And>x. dist s x \<noteq> \<infinity> \<Longrightarrow> x \<in> nodes left_nodes" by (simp add: hk_inv_def)
  have d0_fin: "?d0 x \<noteq> \<infinity> \<longleftrightarrow> (\<exists>u. x = Some u \<and> u \<in> set left_nodes \<and> ?free u)" for x
  proof (cases x)
    case None
    then show ?thesis by simp
  next
    case (Some u)
    have "dist s (Some u) = \<infinity>" if "u \<notin> set left_nodes"
      using supp [of "Some u"] that by blast
    with Some show ?thesis by (cases "u \<in> set left_nodes"; cases "u \<in> fst ` set (match_left s)") (simp_all add: zero_enat_def)
  qed
  have d0_zero: "?d0 x \<noteq> \<infinity> \<Longrightarrow> ?d0 x = 0" for x
    using d0_fin [of x] by auto
  have inv0: "bfs_inv graph (match_right s) (nodes left_nodes) (free_nodes left_nodes s) ?d0 ?q0"
    unfolding bfs_inv_def
  proof (intro conjI allI ballI impI)
    fix x assume "x \<in> set ?q0"
    then show "?d0 x \<noteq> \<infinity>" by (subst d0_fin) auto
  next
    fix w v assume "?d0 (Some w) \<noteq> \<infinity> \<and> Some w \<notin> set ?q0 \<and> ?d0 (Some w) < ?d0 None"
    then have "?d0 (Some w) \<noteq> \<infinity>" "Some w \<notin> set ?q0" by blast+
    with d0_fin [of "Some w"] have False by auto
    then show "?d0 (match_right s v) \<noteq> \<infinity>" ..
  next
    fix x assume fin: "?d0 x \<noteq> \<infinity>"
    with d0_fin [of x] have "x \<in> free_nodes left_nodes s" by (auto simp: free_iff)
    with d0_zero [OF fin] show "(?d0 x = 0 \<and> x \<in> free_nodes left_nodes s) \<or>
          (\<exists>w v. ?d0 x = ?d0 (Some w) + 1 \<and> v \<in> set (graph w) \<and> match_right s v = x \<and> ?d0 (Some w) \<noteq> \<infinity>)"
      by blast
  next
    fix x assume "?d0 x \<noteq> \<infinity>"
    with d0_fin [of x] show "x \<in> nodes left_nodes" by auto
  qed
  have "finite (nodes left_nodes)" by simp
  moreover have "\<forall>v. match_right s v \<in> nodes left_nodes" using hk_inv_right [OF assms] by blast
  ultimately obtain d' where r: "bfs_loop graph (match_right s) ?d0 ?q0 = Some d'"
    "bfs_inv graph (match_right s) (nodes left_nodes) (free_nodes left_nodes s) d' []"
    "\<forall>x. ?d0 x \<noteq> \<infinity> \<longrightarrow> d' x = ?d0 x"
    using bfs_loop_correct [OF _ _ inv0] by blast
  have "bfs graph left_nodes s = Some (d' None \<noteq> \<infinity>, s\<lparr>dist := d'\<rparr>)"
    unfolding bfs_def bfs_init_eq using r(1) by simp
  moreover have "\<forall>u \<in> set left_nodes. left_map s u = None \<longrightarrow> d' (Some u) = 0"
  proof (intro ballI impI)
    fix u assume "u \<in> set left_nodes" "left_map s u = None"
    then have fin: "?d0 (Some u) \<noteq> \<infinity>" by (subst d0_fin) (simp add: free_iff)
    from r(3) fin have e: "d' (Some u) = ?d0 (Some u)" by blast
    from e d0_zero [OF fin] show "d' (Some u) = 0" by (rule trans)
  qed
  ultimately show ?thesis using r(2) by blast
qed

subsection \<open>The depth-first phase\<close>

lemma bfs_good:
  assumes inv: "bfs_inv graph (match_right s) X F (dist s) []"
    and g: "good graph s x" and d: "dist s x = enat n"
  shows "\<exists>y \<in> F. good graph s y"
  using g d
proof (induction n arbitrary: x rule: less_induct)
  case (less n)
  from less.prems(2) have fin: "dist s x \<noteq> \<infinity>" by simp
  from bfs_invD(3) [OF inv fin] show ?case
  proof
    assume "dist s x = 0 \<and> x \<in> F"
    with less.prems(1) show ?thesis by blast
  next
    assume "\<exists>w v. dist s x = dist s (Some w) + 1 \<and> v \<in> set (graph w) \<and> match_right s v = x \<and>
        dist s (Some w) \<noteq> \<infinity>"
    then obtain w v where p: "dist s x = dist s (Some w) + 1" "v \<in> set (graph w)"
      "match_right s v = x" "dist s (Some w) \<noteq> \<infinity>" by blast
    from p(4) obtain m where m: "dist s (Some w) = enat m" by auto
    with p(1) less.prems(2) have "m < n" by (simp add: one_enat_def)
    moreover have "good graph s (Some w)"
      by (rule good.step [of v]) (use p less.prems(1) in simp_all)
    ultimately show ?thesis using less.IH m by blast
  qed
qed

lemma exists_bound:
  assumes "finite X" and "\<forall>x. d x \<noteq> \<infinity> \<longrightarrow> x \<in> X"
  shows "\<exists>K. \<forall>x. d x \<noteq> \<infinity> \<longrightarrow> d x \<le> enat K"
proof (intro exI allI impI)
  fix x :: 'a assume fin: "d x \<noteq> \<infinity>"
  then obtain k where k: "d x = enat k" by auto
  from fin assms(2) have "x \<in> X" by blast
  then have "the_enat (d x) \<in> (\<lambda>x. the_enat (d x)) ` X" by blast
  with assms(1) have "the_enat (d x) \<le> Max ((\<lambda>x. the_enat (d x)) ` X)" by simp
  with k show "d x \<le> enat (Max ((\<lambda>x. the_enat (d x)) ` X))" by simp
qed

lemma hk_inv_length:
  assumes "hk_inv graph left_nodes s"
  shows "length (match_left s) \<le> card (set left_nodes)"
proof -
  from assms have d: "distinct (map fst (match_left s))" by (simp add: hk_inv_def cons_def)
  from assms have in_left: "\<And>u v. left_map s u = Some v \<Longrightarrow> u \<in> set left_nodes"
    unfolding hk_inv_def basic_inv_def by blast
  have "set (map fst (match_left s)) \<subseteq> set left_nodes"
  proof
    fix u assume "u \<in> set (map fst (match_left s))"
    then obtain v where "(u, v) \<in> set (match_left s)" by auto
    from map_of_is_SomeI [OF d this] in_left show "u \<in> set left_nodes" by blast
  qed
  then have "card (set (map fst (match_left s))) \<le> card (set left_nodes)"
    by (simp add: card_mono)
  with distinct_card [OF d] show ?thesis by simp
qed

lemma free_iff: "u \<notin> fst ` set (match_left s) \<longleftrightarrow> left_map s u = None"
  by (simp add: map_of_eq_None_iff)

lemma phase_step:
  assumes pre: "phase_pre graph left_nodes K (u # us) s" and free: "left_map s u = None"
    and run: "dfs_loop graph u (graph u) s = Some (b, s')"
  shows "phase_pre graph left_nodes K us s' \<and>
         (if b then length (match_left s') = Suc (length (match_left s))
          else match_left s' = match_left s \<and> \<not> good graph s (Some u) \<and> prune graph s s')"
proof -
  from pre have inv: "hk_inv graph left_nodes s" and sub: "set (u # us) \<subseteq> set left_nodes"
    and dis: "distinct (u # us)" and bd: "bounded K s"
    and zero: "\<And>x. x \<in> set (u # us) \<Longrightarrow> left_map s x = None \<Longrightarrow> dist s (Some x) = 0"
    unfolding phase_pre_def by blast+
  from zero [of u] free have du: "dist s (Some u) = 0" by simp
  then have fin: "dist s (Some u) \<noteq> \<infinity>" by (simp add: zero_enat_def)
  from inv have c: "cons s" and bi: "basic_inv graph left_nodes s"
    and supp: "\<And>x. dist s x \<noteq> \<infinity> \<Longrightarrow> x \<in> nodes left_nodes"
    unfolding hk_inv_def by blast+
  from dfs_dist [OF run fin] have ds: "dist_step u s s'" by simp
  from sub have uin: "u \<in> set left_nodes" by simp
  from dfs_basic [OF run uin _ bi] have bi': "basic_inv graph left_nodes s'" by simp
  have supp': "x \<in> nodes left_nodes" if "dist s' x \<noteq> \<infinity>" for x
  proof -
    from ds that have "dist s' x = dist s x" unfolding dist_step_def by metis
    with that supp [of x] show ?thesis by metis
  qed
  have main: "set (map fst (match_left s)) \<subseteq> set (map fst (match_left s')) \<and> cons s' \<and>
         (if b then length (match_left s') = Suc (length (match_left s))
          else match_left s' = match_left s \<and> \<not> good graph s (Some u) \<and> prune graph s s')"
  proof (cases b)
    case True
    from dfs_match [OF run _ c fin] True have a: "aug u (graph u) s s'" by simp
    from free have nk: "u \<notin> fst ` set (match_left s)" by (simp add: map_of_eq_None_iff)
    from augD(2) [OF a] nk have k: "map fst (match_left s') = map fst (match_left s) @ [u]"
      by (simp only: if_False)
    have c': "cons s'"
      unfolding cons_def
    proof (intro conjI allI)
      show "distinct (map fst (match_left s'))" by (rule augD(1) [OF a])
      fix v x
      from free have "left_map s u \<noteq> Some v" by simp
      from augD(5) [OF a this] show "match_right s' v = Some x \<longleftrightarrow> left_map s' x = Some v" .
    qed
    have sub': "set (map fst (match_left s)) \<subseteq> set (map fst (match_left s'))"
      unfolding k by auto
    from k have "length (map fst (match_left s')) = Suc (length (map fst (match_left s)))"
      by (simp only: length_append_singleton)
    then have len: "length (match_left s') = Suc (length (match_left s))"
      by (simp only: length_map)
    from sub' c' len True show ?thesis by (simp only: if_True simp_thms)
  next
    case False
    from dfs_fail [OF run] False have same: "match_left s' = match_left s" "match_right s' = match_right s"
      by simp_all
    from dfs_good [OF run _ fin] False have g: "\<not> good graph s (Some u) \<and> prune graph s s'"
      by (simp add: lead_in)
    from c same have c': "cons s'" by (simp add: cons_def)
    from same have sub': "set (map fst (match_left s)) \<subseteq> set (map fst (match_left s'))" by simp
    from sub' c' same(1) g False show ?thesis by (simp only: if_False simp_thms)
  qed
  then have keys: "set (map fst (match_left s)) \<subseteq> set (map fst (match_left s'))"
    and c': "cons s'" by blast+
  have zero': "dist s' (Some x) = 0" if "x \<in> set us" "left_map s' x = None" for x
  proof -
    from that(2) have "x \<notin> set (map fst (match_left s'))" by (simp add: map_of_eq_None_iff)
    with keys have "x \<notin> set (map fst (match_left s))" by blast
    then have "left_map s x = None" by (simp add: map_of_eq_None_iff)
    with zero [of x] that(1) have dx: "dist s (Some x) = 0" by simp
    from that(1) dis have "Some x \<noteq> Some u" by auto
    moreover from dx du have "dist s (Some x) \<le> dist s (Some u)" by simp
    ultimately have "dist s' (Some x) = dist s (Some x)"
      by (rule dist_step_same [OF ds fin])
    with dx show ?thesis by simp
  qed
  have "hk_inv graph left_nodes s'"
    unfolding hk_inv_def using c' bi' supp' by blast
  moreover from sub have "set us \<subseteq> set left_nodes" by simp
  moreover from dis have "distinct us" by simp
  moreover note dist_step_bounded [OF ds bd]
  moreover have "\<forall>x \<in> set us. left_map s' x = None \<longrightarrow> dist s' (Some x) = 0"
    using zero' by blast
  ultimately have "phase_pre graph left_nodes K us s'"
    unfolding phase_pre_def by blast
  with main show ?thesis by blast
qed

lemma dfs_phase_spec:
  assumes "phase_pre graph left_nodes K us s"
  shows "\<exists>s' n'. dfs_phase graph us s n = Some (s', n') \<and> hk_inv graph left_nodes s' \<and>
           n' - n = length (match_left s') - length (match_left s) \<and> n \<le> n' \<and>
           length (match_left s) \<le> length (match_left s') \<and>
           ((\<exists>u \<in> set us. left_map s u = None \<and> good graph s (Some u)) \<longrightarrow> n < n')"
  using assms
proof (induction us arbitrary: s n)
  case Nil
  then show ?case by (simp add: phase_pre_def)
next
  case (Cons u us)
  show ?case
  proof (cases "left_map s u = None")
    case False
    from Cons.prems have pre': "phase_pre graph left_nodes K us s" by (simp add: phase_pre_def)
    from False have "u \<in> fst ` set (match_left s)" by (simp add: map_of_eq_None_iff)
    then have run: "dfs_phase graph (u # us) s n = dfs_phase graph us s n"
      by simp
    from Cons.IH [OF pre', of n] obtain s' n' where r:
      "dfs_phase graph us s n = Some (s', n')" "hk_inv graph left_nodes s'"
      "n' - n = length (match_left s') - length (match_left s)" "n \<le> n'"
      "length (match_left s) \<le> length (match_left s')"
      "(\<exists>u \<in> set us. left_map s u = None \<and> good graph s (Some u)) \<longrightarrow> n < n'"
      by blast
    have "n < n'" if "\<exists>u' \<in> set (u # us). left_map s u' = None \<and> good graph s (Some u')"
    proof -
      from that False have "\<exists>u' \<in> set us. left_map s u' = None \<and> good graph s (Some u')"
        by (metis set_ConsD)
      with r(6) show ?thesis by blast
    qed
    with r show ?thesis unfolding run by blast
  next
    case True
    from Cons.prems have bd: "bounded K s" and z: "dist s (Some u) = 0"
      using True by (simp_all add: phase_pre_def)
    from z have fin: "dist s (Some u) \<noteq> \<infinity>" by (simp add: zero_enat_def)
    from dfs_terminates [OF bd fin, of graph "graph u"] obtain b s1 where
      sub: "dfs_loop graph u (graph u) s = Some (b, s1)" by auto
    note st = phase_step [OF Cons.prems True sub]
    let ?n1 = "if b then n + 1 else n"
    from True have "u \<notin> fst ` set (match_left s)" by (simp add: map_of_eq_None_iff)
    with sub have run: "dfs_phase graph (u # us) s n = dfs_phase graph us s1 ?n1"
      by (simp add: dfs_def)
    from st have pre1: "phase_pre graph left_nodes K us s1" by blast
    from Cons.IH [OF pre1, of ?n1] obtain s' n' where r:
      "dfs_phase graph us s1 ?n1 = Some (s', n')" "hk_inv graph left_nodes s'"
      "n' - ?n1 = length (match_left s') - length (match_left s1)" "?n1 \<le> n'"
      "length (match_left s1) \<le> length (match_left s')"
      "(\<exists>u \<in> set us. left_map s1 u = None \<and> good graph s1 (Some u)) \<longrightarrow> ?n1 < n'"
      by blast
    show ?thesis
    proof (cases b)
      case b: True
      with st have "length (match_left s1) = Suc (length (match_left s))" by simp
      with r b show ?thesis unfolding run by auto
    next
      case b: False
      with st have same: "match_left s1 = match_left s" and ng: "\<not> good graph s (Some u)"
        and pr: "prune graph s s1" by simp_all
      have "\<exists>u' \<in> set us. left_map s1 u' = None \<and> good graph s1 (Some u')"
        if "\<exists>u' \<in> set (u # us). left_map s u' = None \<and> good graph s (Some u')"
      proof -
        from that ng obtain u' where "u' \<in> set us" "left_map s u' = None" "good graph s (Some u')"
          by auto
        with same prune_good [OF pr] show ?thesis by auto
      qed
      with r b same show ?thesis unfolding run by auto
    qed
  qed
qed

subsection \<open>Rounds and the outer loop\<close>

lemma hk_inv_dist:
  assumes "hk_inv graph left_nodes s" and "\<forall>x. d x \<noteq> \<infinity> \<longrightarrow> x \<in> nodes left_nodes"
  shows "hk_inv graph left_nodes (s\<lparr>dist := d\<rparr>)"
  using assms unfolding hk_inv_def cons_def by simp

lemma hk_round:
  assumes inv: "hk_inv graph left_nodes s" and dis: "distinct left_nodes"
  shows "\<exists>d'. bfs graph left_nodes s = Some (d' None \<noteq> \<infinity>, s\<lparr>dist := d'\<rparr>) \<and>
           (if d' None \<noteq> \<infinity>
            then \<exists>s2 n2. dfs_phase graph left_nodes (s\<lparr>dist := d'\<rparr>) n = Some (s2, n2) \<and>
                   hk_inv graph left_nodes s2 \<and> n < n2 \<and>
                   n2 - n = length (match_left s2) - length (match_left s) \<and>
                   length (match_left s) \<le> length (match_left s2)
            else final graph left_nodes (s\<lparr>dist := d'\<rparr>))"
proof -
  from bfs_spec [OF inv] obtain d' where
    run: "bfs graph left_nodes s = Some (d' None \<noteq> \<infinity>, s\<lparr>dist := d'\<rparr>)"
    and binv: "bfs_inv graph (match_right s) (nodes left_nodes) (free_nodes left_nodes s) d' []"
    and zero: "\<forall>u \<in> set left_nodes. left_map s u = None \<longrightarrow> d' (Some u) = 0"
    by blast
  let ?s1 = "s\<lparr>dist := d'\<rparr>"
  from bfs_invD(4) [OF binv] have supp: "\<forall>x. d' x \<noteq> \<infinity> \<longrightarrow> x \<in> nodes left_nodes" by blast
  from hk_inv_dist [OF inv supp] have inv1: "hk_inv graph left_nodes ?s1" .
  have binv1: "bfs_inv graph (match_right ?s1) (nodes left_nodes) (free_nodes left_nodes ?s1) (dist ?s1) []"
    using binv by simp
  show ?thesis
  proof (cases "d' None = \<infinity>")
    case True
    with inv1 binv1 zero have "final graph left_nodes ?s1" by (simp add: final_def)
    with run True show ?thesis by auto
  next
    case False
    have "finite (nodes left_nodes)" by simp
    from exists_bound [OF this supp] obtain K where "\<forall>x. d' x \<noteq> \<infinity> \<longrightarrow> d' x \<le> enat K" ..
    then have bd: "bounded K ?s1" by (simp add: bounded_def)
    have pre: "phase_pre graph left_nodes K left_nodes ?s1"
      unfolding phase_pre_def using inv1 dis bd zero by simp
    from False obtain k where k: "dist ?s1 None = enat k" by auto
    from False have "good graph ?s1 None" by (simp add: good.sentinel)
    from bfs_good [OF binv1 this k] obtain y where
      y: "y \<in> free_nodes left_nodes ?s1" "good graph ?s1 y" by blast
    then obtain u where "u \<in> set left_nodes" "left_map ?s1 u = None" "good graph ?s1 (Some u)"
      by auto
    then have ex: "\<exists>u \<in> set left_nodes. left_map ?s1 u = None \<and> good graph ?s1 (Some u)" by blast
    from dfs_phase_spec [OF pre, of n] ex obtain s2 n2 where
      "dfs_phase graph left_nodes ?s1 n = Some (s2, n2)" "hk_inv graph left_nodes s2"
      "n2 - n = length (match_left s2) - length (match_left ?s1)"
      "length (match_left ?s1) \<le> length (match_left s2)" "n < n2"
      by blast
    with run False show ?thesis by auto
  qed
qed

lemma hk_loop_correct:
  assumes "hk_inv graph left_nodes s" and "distinct left_nodes"
  shows "\<exists>s' n'. hk_loop graph left_nodes s n = Some (s', n') \<and> final graph left_nodes s' \<and>
           n' - n = length (match_left s') - length (match_left s) \<and> n \<le> n' \<and>
           length (match_left s) \<le> length (match_left s')"
  using assms(1)
proof (induction "card (set left_nodes) - length (match_left s)" arbitrary: s n rule: less_induct)
  case less
  from hk_round [OF less.prems assms(2), of n] obtain d' where
    run: "bfs graph left_nodes s = Some (d' None \<noteq> \<infinity>, s\<lparr>dist := d'\<rparr>)"
    and rest: "if d' None \<noteq> \<infinity>
            then \<exists>s2 n2. dfs_phase graph left_nodes (s\<lparr>dist := d'\<rparr>) n = Some (s2, n2) \<and>
                   hk_inv graph left_nodes s2 \<and> n < n2 \<and>
                   n2 - n = length (match_left s2) - length (match_left s) \<and>
                   length (match_left s) \<le> length (match_left s2)
            else final graph left_nodes (s\<lparr>dist := d'\<rparr>)"
    by blast
  show ?case
  proof (cases "d' None = \<infinity>")
    case True
    with rest have "final graph left_nodes (s\<lparr>dist := d'\<rparr>)" by simp
    moreover from run True have "hk_loop graph left_nodes s n = Some (s\<lparr>dist := d'\<rparr>, n)"
      by (subst hk_loop.simps) simp
    ultimately show ?thesis by simp
  next
    case False
    with rest obtain s2 n2 where
      ph: "dfs_phase graph left_nodes (s\<lparr>dist := d'\<rparr>) n = Some (s2, n2)"
      and inv2: "hk_inv graph left_nodes s2" and lt: "n < n2"
      and diff: "n2 - n = length (match_left s2) - length (match_left s)"
      and le: "length (match_left s) \<le> length (match_left s2)"
      by auto
    from lt diff le have grow: "length (match_left s) < length (match_left s2)" by arith
    from hk_inv_length [OF inv2] grow
    have "card (set left_nodes) - length (match_left s2) < card (set left_nodes) - length (match_left s)"
      by arith
    from less.hyps [OF this inv2, of n2] obtain s' n' where
      r: "hk_loop graph left_nodes s2 n2 = Some (s', n')" "final graph left_nodes s'"
      "n' - n2 = length (match_left s') - length (match_left s2)" "n2 \<le> n'"
      "length (match_left s2) \<le> length (match_left s')"
      by blast
    from run False ph have "hk_loop graph left_nodes s n = hk_loop graph left_nodes s2 n2"
      by (subst hk_loop.simps) simp
    with r(1) have run': "hk_loop graph left_nodes s n = Some (s', n')" by simp
    from r(3,4,5) lt diff le have "n' - n = length (match_left s') - length (match_left s)"
      "n \<le> n'" "length (match_left s) \<le> length (match_left s')" by arith+
    with run' r(2) show ?thesis by blast
  qed
qed

subsection \<open>Maximality\<close>

lemma final_max:
  assumes fin: "final graph left_nodes s" and M: "matching graph left_nodes M"
  shows "card M \<le> length (match_left s)"
proof -
  define Z where "Z = {u. dist s (Some u) \<noteq> \<infinity>}"
  from fin have inv: "hk_inv graph left_nodes s" and dN: "dist s None = \<infinity>"
    and binv: "bfs_inv graph (match_right s) (nodes left_nodes) (free_nodes left_nodes s) (dist s) []"
    and zero: "\<And>u. u \<in> set left_nodes \<Longrightarrow> left_map s u = None \<Longrightarrow> dist s (Some u) = 0"
    unfolding final_def by blast+
  from inv have c: "cons s" by (simp add: hk_inv_def)
  note d = cons_distinct [OF c]
  have free: "u \<in> Z" if "u \<in> set left_nodes" "left_map s u = None" for u
    using zero [OF that] by (simp add: Z_def zero_enat_def)
  have closed: "\<exists>u' \<in> Z. match_right s v = Some u'" if "u \<in> Z" "v \<in> set (graph u)" for u v
  proof -
    from that(1) have f: "dist s (Some u) \<noteq> \<infinity>" by (simp add: Z_def)
    with dN have "dist s (Some u) < dist s None" by (simp add: less_infinityE)
    from bfs_invD(2) [OF binv f _ this that(2)] have g: "dist s (match_right s v) \<noteq> \<infinity>" by simp
    with dN have "match_right s v \<noteq> None" by metis
    then obtain u' where u': "match_right s v = Some u'" by blast
    with g have "u' \<in> Z" by (simp add: Z_def)
    with u' show ?thesis by blast
  qed
  define f where "f e = (if fst e \<in> Z then (the (match_right s (snd e)), snd e)
                         else (fst e, the (left_map s (fst e))))" for e :: "'a \<times> 'b"
  have edge: "fst e \<in> set left_nodes \<and> snd e \<in> set (graph (fst e))" if "e \<in> M" for e
    using M that unfolding matching_def edges_def by auto
  have inZ: "\<exists>u' \<in> Z. match_right s (snd e) = Some u' \<and> f e = (u', snd e)" if "e \<in> M" "fst e \<in> Z" for e
  proof -
    from closed [OF that(2)] edge [OF that(1)] obtain u' where "u' \<in> Z" "match_right s (snd e) = Some u'"
      by blast
    with that(2) show ?thesis by (simp add: f_def)
  qed
  have notZ: "\<exists>v. left_map s (fst e) = Some v \<and> f e = (fst e, v)" if "e \<in> M" "fst e \<notin> Z" for e
  proof -
    from free [of "fst e"] edge [OF that(1)] that(2) have "left_map s (fst e) \<noteq> None" by blast
    then obtain v where "left_map s (fst e) = Some v" by blast
    with that(2) show ?thesis by (simp add: f_def)
  qed
  have img: "f ` M \<subseteq> set (match_left s)"
  proof
    fix p assume "p \<in> f ` M"
    then obtain e where e: "e \<in> M" "p = f e" by blast
    show "p \<in> set (match_left s)"
    proof (cases "fst e \<in> Z")
      case True
      from inZ [OF e(1) True] obtain u' where "match_right s (snd e) = Some u'" "f e = (u', snd e)"
        by blast
      with cons_right [OF c, of "snd e" u'] e(2) show ?thesis by (simp add: map_of_SomeD)
    next
      case False
      from notZ [OF e(1) False] obtain v where "left_map s (fst e) = Some v" "f e = (fst e, v)" by blast
      with e(2) show ?thesis by (simp add: map_of_SomeD)
    qed
  qed
  have uniq: "e = e'" if "e \<in> M" "e' \<in> M" "fst e = fst e' \<or> snd e = snd e'" for e e'
    using M that unfolding matching_def by blast
  have inj: "inj_on f M"
  proof (rule inj_onI)
    fix e e' assume e: "e \<in> M" and e': "e' \<in> M" and eq: "f e = f e'"
    show "e = e'"
    proof (cases "fst e \<in> Z")
      case True
      from inZ [OF e True] obtain u1 where u1: "u1 \<in> Z" "f e = (u1, snd e)" by blast
      show ?thesis
      proof (cases "fst e' \<in> Z")
        case True
        from inZ [OF e' True] obtain u2 where "f e' = (u2, snd e')" by blast
        with u1 eq have "snd e = snd e'" by simp
        with uniq [OF e e'] show ?thesis by blast
      next
        case False
        from notZ [OF e' False] obtain v where "f e' = (fst e', v)" by blast
        with u1 eq have "u1 = fst e'" by simp
        with u1(1) False show ?thesis by simp
      qed
    next
      case False
      from notZ [OF e False] obtain v1 where v1: "f e = (fst e, v1)" by blast
      show ?thesis
      proof (cases "fst e' \<in> Z")
        case True
        from inZ [OF e' True] obtain u2 where u2: "u2 \<in> Z" "f e' = (u2, snd e')" by blast
        with v1 eq have "u2 = fst e" by simp
        with u2(1) False show ?thesis by simp
      next
        case False
        from notZ [OF e' False] obtain v2 where "f e' = (fst e', v2)" by blast
        with v1 eq have "fst e = fst e'" by simp
        with uniq [OF e e'] show ?thesis by blast
      qed
    qed
  qed
  from inj have "card M = card (f ` M)" by (simp add: card_image)
  also from img have "\<dots> \<le> card (set (match_left s))" by (simp add: card_mono)
  also have "\<dots> \<le> length (match_left s)" by (rule card_length)
  finally show ?thesis .
qed

lemma cons_matching:
  assumes "cons s" and "basic_inv graph left_nodes s"
  shows "distinct (map snd (match_left s))" and "set (match_left s) \<subseteq> edges graph left_nodes"
    and "matching graph left_nodes (set (match_left s))"
proof -
  note d = cons_distinct [OF assms(1)]
  have some: "left_map s (fst e) = Some (snd e)" if "e \<in> set (match_left s)" for e
    using map_of_is_SomeI [OF d, of "fst e" "snd e"] that by simp
  have snd_inj: "e = e'" if "e \<in> set (match_left s)" "e' \<in> set (match_left s)" "snd e = snd e'" for e e'
  proof -
    from some [OF that(1)] some [OF that(2)] that(3) cons_inj [OF assms(1)]
    have "fst e = fst e'" by metis
    with that(3) show ?thesis by (simp add: prod_eq_iff)
  qed
  have fst_inj: "e = e'" if "e \<in> set (match_left s)" "e' \<in> set (match_left s)" "fst e = fst e'" for e e'
  proof -
    from some [OF that(1)] some [OF that(2)] that(3) have "snd e = snd e'" by simp
    with that(3) show ?thesis by (simp add: prod_eq_iff)
  qed
  from d have dl: "distinct (match_left s)" by (simp add: distinct_map)
  show "distinct (map snd (match_left s))"
    unfolding distinct_map using dl snd_inj by (auto intro: inj_onI)
  show sub: "set (match_left s) \<subseteq> edges graph left_nodes"
  proof
    fix e assume "e \<in> set (match_left s)"
    from some [OF this] assms(2) have "fst e \<in> set left_nodes \<and> snd e \<in> set (graph (fst e))"
      unfolding basic_inv_def by blast
    then show "e \<in> edges graph left_nodes" by (simp add: edges_def case_prod_beta)
  qed
  show "matching graph left_nodes (set (match_left s))"
    unfolding matching_def using sub fst_inj snd_inj by blast
qed

lemma hopcroft_karp_total:
  assumes "distinct left_nodes"
  shows "\<exists>ml. hopcroft_karp graph left_nodes = Some ml \<and> distinct (map fst ml) \<and>
           distinct (map snd ml) \<and> matching graph left_nodes (set ml) \<and>
           (\<forall>M. matching graph left_nodes M \<longrightarrow> card M \<le> length ml)"
proof -
  from hk_loop_correct [OF hk_inv_init assms, of graph 0] obtain s' n' where
    run: "hk_loop graph left_nodes hk_init 0 = Some (s', n')" and fin: "final graph left_nodes s'"
    by blast
  from fin have inv: "hk_inv graph left_nodes s'" by (simp add: final_def)
  then have c: "cons s'" and b: "basic_inv graph left_nodes s'" by (simp_all add: hk_inv_def)
  from run have "hopcroft_karp graph left_nodes = Some (match_left s')"
    by (simp add: hopcroft_karp_def)
  with cons_distinct [OF c] cons_matching [OF c b] final_max [OF fin]
  show ?thesis by blast
qed

subsection \<open>Edges and size of the result\<close>

lemma bfs_result:
  assumes "bfs graph left_nodes s = Some (b, s')"
  shows "\<exists>d'. s' = s\<lparr>dist := d'\<rparr>"
  using assms unfolding bfs_def by (auto split: prod.splits)

lemma dfs_phase_basic:
  assumes "dfs_phase graph us s n = Some (s', n')" and "set us \<subseteq> set left_nodes"
    and "basic_inv graph left_nodes s"
  shows "basic_inv graph left_nodes s'"
  using assms
proof (induction us arbitrary: s n)
  case Nil
  then show ?case by simp
next
  case (Cons u us)
  show ?case
  proof (cases "u \<notin> fst ` set (match_left s)")
    case False
    with Cons.prems have "dfs_phase graph us s n = Some (s', n')" by simp
    from Cons.IH [OF this] Cons.prems show ?thesis by simp
  next
    case True
    with Cons.prems(1) obtain b s1 where sub: "dfs_loop graph u (graph u) s = Some (b, s1)"
      and rest: "dfs_phase graph us s1 (if b then n + 1 else n) = Some (s', n')"
      by (auto simp: dfs_def split: option.splits)
    from Cons.prems(2) have "u \<in> set left_nodes" by simp
    from dfs_basic [OF sub this _ Cons.prems(3)] have "basic_inv graph left_nodes s1" by simp
    from Cons.IH [OF rest _ this] Cons.prems(2) show ?thesis by simp
  qed
qed

lemma hk_loop_basic:
  assumes "hk_loop graph left_nodes s n = Some r" and "basic_inv graph left_nodes s"
  shows "basic_inv graph left_nodes (fst r)"
proof -
  have "basic_inv graph left_nodes s \<longrightarrow> basic_inv graph left_nodes (fst r)"
  proof (rule hk_loop.raw_induct
      [where P = "\<lambda>g l s n r. basic_inv g l s \<longrightarrow> basic_inv g l (fst r)", OF _ assms(1)])
    fix f and g :: "'a \<Rightarrow> 'b list" and l s n r
    assume IH: "\<And>g l s n r. f g l s n = Some r \<Longrightarrow> basic_inv g l s \<longrightarrow> basic_inv g l (fst r)"
      and eq: "Option.bind (bfs g l s)
         (\<lambda>(reached, s').
            if reached
            then Option.bind (dfs_phase g l s' n) (\<lambda>(s'', matching_size'). f g l s'' matching_size')
            else Some (s', n)) = Some r"
    show "basic_inv g l s \<longrightarrow> basic_inv g l (fst r)"
    proof
      assume b: "basic_inv g l s"
      from eq obtain reached s1 where bfs: "bfs g l s = Some (reached, s1)"
        and rest: "(if reached
            then Option.bind (dfs_phase g l s1 n) (\<lambda>(s'', matching_size'). f g l s'' matching_size')
            else Some (s1, n)) = Some r"
        by (auto simp: Option.bind_eq_Some_conv)
      from bfs_result [OF bfs] b have b1: "basic_inv g l s1" by auto
      show "basic_inv g l (fst r)"
      proof (cases reached)
        case False
        with rest b1 show ?thesis by auto
      next
        case True
        with rest obtain s2 n2 where ph: "dfs_phase g l s1 n = Some (s2, n2)"
          and loop: "f g l s2 n2 = Some r"
          by (auto simp: Option.bind_eq_Some_conv)
        from dfs_phase_basic [OF ph _ b1] have "basic_inv g l s2" by simp
        with IH [OF loop] show ?thesis by simp
      qed
    qed
  qed
  with assms(2) show ?thesis by simp
qed

lemma hopcroft_karp_edges:
  assumes "hopcroft_karp graph left_nodes = Some ml"
  shows "distinct (map fst ml) \<and> (\<forall>(u, v) \<in> set ml. u \<in> set left_nodes \<and> v \<in> set (graph u))"
proof -
  from assms obtain s n where run: "hk_loop graph left_nodes hk_init 0 = Some (s, n)"
    and ml: "ml = match_left s"
    by (auto simp: hopcroft_karp_def)
  have "basic_inv graph left_nodes hk_init" by (simp add: basic_inv_def hk_init_def)
  from hk_loop_basic [OF run this] have b: "basic_inv graph left_nodes s" by simp
  then have d: "distinct (map fst ml)" by (simp add: basic_inv_def ml)
  have "u \<in> set left_nodes \<and> v \<in> set (graph u)" if "(u, v) \<in> set ml" for u v
    using map_of_is_SomeI [OF d that] b unfolding basic_inv_def ml by blast
  with d show ?thesis by blast
qed


subsection \<open>Runs within the recursion limit\<close>

lemma bfs_layers:
  assumes inv: "bfs_inv graph mr (nodes left_nodes) F d q"
  shows "d x = enat n \<Longrightarrow> n \<le> card {u \<in> set left_nodes. d (Some u) < enat n}"
proof (induction n arbitrary: x)
  case 0
  show ?case by simp
next
  case (Suc m)
  from Suc.prems have fin: "d x \<noteq> \<infinity>" by simp
  from Suc.prems have nz: "d x \<noteq> 0" by (simp add: zero_enat_def)
  from bfs_invD(3) [OF inv fin] nz obtain w where
    w: "d x = d (Some w) + 1" "d (Some w) \<noteq> \<infinity>" by blast
  from w(2) obtain k where k: "d (Some w) = enat k" by auto
  with w(1) Suc.prems have dw: "d (Some w) = enat m" by (simp add: one_enat_def)
  from bfs_invD(4) [OF inv w(2)] have win: "w \<in> set left_nodes" by auto
  let ?A = "{u \<in> set left_nodes. d (Some u) < enat m}"
  let ?B = "{u \<in> set left_nodes. d (Some u) < enat (Suc m)}"
  from Suc.IH [OF dw] have "m \<le> card ?A" .
  moreover have "w \<notin> ?A" using dw by simp
  moreover have "insert w ?A \<subseteq> ?B"
  proof
    fix y assume "y \<in> insert w ?A"
    then have "y \<in> set left_nodes" "d (Some y) \<le> enat m" using dw win by auto
    moreover have "enat m < enat (Suc m)" by simp
    ultimately show "y \<in> ?B" by (simp add: le_less_trans)
  qed
  moreover have "finite ?B" by simp
  ultimately have "Suc m \<le> card ?B"
    by (metis (no_types, lifting) Suc_le_mono card_insert_disjoint card_mono finite_subset
        le_trans subset_insertI)
  then show ?case .
qed

lemma bfs_bounded:
  assumes "bfs_inv graph mr (nodes left_nodes) F d q"
  shows "\<forall>x. d x \<noteq> \<infinity> \<longrightarrow> d x \<le> enat (length left_nodes)"
proof (intro allI impI)
  fix x assume "d x \<noteq> \<infinity>"
  then obtain n where n: "d x = enat n" by auto
  from bfs_layers [OF assms n] have "n \<le> card {u \<in> set left_nodes. d (Some u) < enat n}" .
  also have "\<dots> \<le> card (set left_nodes)" by (intro card_mono) auto
  also have "\<dots> \<le> length left_nodes" by (rule card_length)
  finally show "d x \<le> enat (length left_nodes)" using n by simp
qed

lemma dfs_loop_lim_eq:
  assumes "dfs_loop graph u vs s = Some r"
  shows "bounded K s \<Longrightarrow> dist s (Some u) = enat n \<Longrightarrow> K \<le> frames + n \<Longrightarrow>
         dfs_loop_lim frames graph u vs s = Inr r"
  using assms
proof (induction arbitrary: frames n rule: dfs_loop_induct)
  case (Nil u s)
  show ?case by simp
next
  case (Skip u v vs s r)
  from Skip.IH [OF Skip.prems] Skip.hyps(1) show ?case by simp
next
  case (Hit u v vs s)
  from Hit.hyps(2) Hit.prems(2) have dn: "dist s None = enat (Suc n)" by (simp add: one_enat_def)
  with Hit.prems(1) have "Suc n \<le> K" unfolding bounded_def by (metis enat.distinct(1) enat_ord_simps(1))
  with Hit.prems(3) obtain f where f: "frames = Suc f" by (cases frames) auto
  from Hit.hyps f show ?case by simp
next
  case (Succ u v vs s w s')
  from Succ.hyps(2) Succ.prems(2) have dw: "dist s (Some w) = enat (Suc n)" by (simp add: one_enat_def)
  with Succ.prems(1) have "Suc n \<le> K" unfolding bounded_def by (metis enat.distinct(1) enat_ord_simps(1))
  with Succ.prems(3) obtain f where f: "frames = Suc f" and le: "K \<le> f + Suc n"
    by (cases frames) auto
  from Succ.IH [OF Succ.prems(1) dw le] have "dfs_loop_lim f graph w (graph w) s = Inr (True, s')" .
  with Succ.hyps(1,2) f show ?case by simp
next
  case (Fail u v vs s w s' r)
  from Fail.hyps(2) Fail.prems(2) have dw: "dist s (Some w) = enat (Suc n)" by (simp add: one_enat_def)
  with Fail.prems(1) have "Suc n \<le> K" unfolding bounded_def by (metis enat.distinct(1) enat_ord_simps(1))
  with Fail.prems(3) obtain f where f: "frames = Suc f" and le: "K \<le> f + Suc n"
    by (cases frames) auto
  from Fail.IH(1) [OF Fail.prems(1) dw le] have sub: "dfs_loop_lim f graph w (graph w) s = Inr (False, s')" .
  from dw have fin: "dist s (Some w) \<noteq> \<infinity>" by simp
  from dfs_dist [OF Fail.hyps(3) fin] have ds: "dist_step w s s'" by simp
  from Fail.prems(2) dw have "Some u \<noteq> Some w" "dist s (Some u) \<le> dist s (Some w)" by auto
  with dist_step_same [OF ds fin, of "Some u"] Fail.prems(2)
  have du: "dist s' (Some u) = enat n" by simp
  from Fail.IH(2) [OF dist_step_bounded [OF ds Fail.prems(1)] du Fail.prems(3)]
  have "dfs_loop_lim frames graph u vs s' = Inr r" .
  with sub Fail.hyps(1,2) f show ?case by simp
qed

lemma dfs_phase_lim_eq:
  assumes "dfs_phase graph us s n = Some r" and "phase_pre graph left_nodes K us s"
    and "K < limit"
  shows "dfs_phase_lim limit graph us s n = Inr r"
  using assms(1,2)
proof (induction us arbitrary: s n)
  case Nil
  then show ?case by simp
next
  case (Cons u us)
  show ?case
  proof (cases "left_map s u = None")
    case False
    then have m: "u \<in> fst ` set (match_left s)" by (simp add: map_of_eq_None_iff)
    with Cons.prems(1) have run: "dfs_phase graph us s n = Some r" by simp
    from Cons.prems(2) have "phase_pre graph left_nodes K us s" by (simp add: phase_pre_def)
    from Cons.IH [OF run this] m show ?thesis by simp
  next
    case True
    then have m: "u \<notin> fst ` set (match_left s)" by (simp add: map_of_eq_None_iff)
    with Cons.prems(1) obtain b s1 where sub: "dfs_loop graph u (graph u) s = Some (b, s1)"
      and rest: "dfs_phase graph us s1 (if b then n + 1 else n) = Some r"
      by (auto simp: dfs_def split: option.splits)
    from Cons.prems(2) True have bd: "bounded K s" and z: "dist s (Some u) = enat 0"
      by (simp_all add: phase_pre_def zero_enat_def)
    from assms(3) obtain f where f: "limit = Suc f" and le: "K \<le> f + 0" by (cases limit) auto
    from dfs_loop_lim_eq [OF sub bd z le] f have "dfs_lim limit graph u s = Inr (b, s1)"
      by (simp add: dfs_lim_def)
    moreover from phase_step [OF Cons.prems(2) True sub] have "phase_pre graph left_nodes K us s1"
      by blast
    from Cons.IH [OF rest this] have "dfs_phase_lim limit graph us s1 (if b then n + 1 else n) = Inr r" .
    ultimately show ?thesis using m by simp
  qed
qed

text \<open>One round, with the frames counted.\<close>

lemma hk_round_lim:
  assumes inv: "hk_inv graph left_nodes s" and dis: "distinct left_nodes"
    and lim: "length left_nodes < limit"
  shows "\<exists>d'. bfs graph left_nodes s = Some (d' None \<noteq> \<infinity>, s\<lparr>dist := d'\<rparr>) \<and>
           (if d' None \<noteq> \<infinity>
            then \<exists>s2 n2. dfs_phase graph left_nodes (s\<lparr>dist := d'\<rparr>) n = Some (s2, n2) \<and>
                   dfs_phase_lim limit graph left_nodes (s\<lparr>dist := d'\<rparr>) n = Inr (s2, n2) \<and>
                   hk_inv graph left_nodes s2 \<and> n < n2 \<and>
                   n2 - n = length (match_left s2) - length (match_left s) \<and>
                   length (match_left s) \<le> length (match_left s2)
            else final graph left_nodes (s\<lparr>dist := d'\<rparr>))"
proof -
  from bfs_spec [OF inv] obtain d' where
    run: "bfs graph left_nodes s = Some (d' None \<noteq> \<infinity>, s\<lparr>dist := d'\<rparr>)"
    and binv: "bfs_inv graph (match_right s) (nodes left_nodes) (free_nodes left_nodes s) d' []"
    and zero: "\<forall>u \<in> set left_nodes. left_map s u = None \<longrightarrow> d' (Some u) = 0"
    by blast
  let ?s1 = "s\<lparr>dist := d'\<rparr>"
  from bfs_invD(4) [OF binv] have supp: "\<forall>x. d' x \<noteq> \<infinity> \<longrightarrow> x \<in> nodes left_nodes" by blast
  from hk_inv_dist [OF inv supp] have inv1: "hk_inv graph left_nodes ?s1" .
  have binv1: "bfs_inv graph (match_right ?s1) (nodes left_nodes) (free_nodes left_nodes ?s1) (dist ?s1) []"
    using binv by simp
  show ?thesis
  proof (cases "d' None = \<infinity>")
    case True
    with inv1 binv1 zero have "final graph left_nodes ?s1" by (simp add: final_def)
    with run True show ?thesis by auto
  next
    case False
    from bfs_bounded [OF binv] have bd: "bounded (length left_nodes) ?s1" by (simp add: bounded_def)
    have pre: "phase_pre graph left_nodes (length left_nodes) left_nodes ?s1"
      unfolding phase_pre_def using inv1 dis bd zero by simp
    from False obtain k where k: "dist ?s1 None = enat k" by auto
    from False have "good graph ?s1 None" by (simp add: good.sentinel)
    from bfs_good [OF binv1 this k] obtain y where
      y: "y \<in> free_nodes left_nodes ?s1" "good graph ?s1 y" by blast
    then obtain u where "u \<in> set left_nodes" "left_map ?s1 u = None" "good graph ?s1 (Some u)"
      by auto
    then have ex: "\<exists>u \<in> set left_nodes. left_map ?s1 u = None \<and> good graph ?s1 (Some u)" by blast
    from dfs_phase_spec [OF pre, of n] ex obtain s2 n2 where
      r: "dfs_phase graph left_nodes ?s1 n = Some (s2, n2)" "hk_inv graph left_nodes s2"
      "n2 - n = length (match_left s2) - length (match_left ?s1)"
      "length (match_left ?s1) \<le> length (match_left s2)" "n < n2"
      by blast
    from dfs_phase_lim_eq [OF r(1) pre lim]
    have "dfs_phase_lim limit graph left_nodes ?s1 n = Inr (s2, n2)" .
    with r run False show ?thesis by auto
  qed
qed

lemma hk_loop_lim_correct:
  assumes "hk_inv graph left_nodes s" and "distinct left_nodes" and "length left_nodes < limit"
  shows "\<exists>s' n'. hk_loop_lim limit graph left_nodes s n = Some (Inr (s', n')) \<and>
           hk_loop graph left_nodes s n = Some (s', n') \<and> final graph left_nodes s' \<and>
           n' - n = length (match_left s') - length (match_left s) \<and> n \<le> n' \<and>
           length (match_left s) \<le> length (match_left s')"
  using assms(1)
proof (induction "card (set left_nodes) - length (match_left s)" arbitrary: s n rule: less_induct)
  case less
  from assms(3) obtain f where f: "limit = Suc f" by (cases limit) auto
  from hk_round_lim [OF less.prems assms(2,3), of n] obtain d' where
    run: "bfs graph left_nodes s = Some (d' None \<noteq> \<infinity>, s\<lparr>dist := d'\<rparr>)"
    and rest: "if d' None \<noteq> \<infinity>
            then \<exists>s2 n2. dfs_phase graph left_nodes (s\<lparr>dist := d'\<rparr>) n = Some (s2, n2) \<and>
                   dfs_phase_lim limit graph left_nodes (s\<lparr>dist := d'\<rparr>) n = Inr (s2, n2) \<and>
                   hk_inv graph left_nodes s2 \<and> n < n2 \<and>
                   n2 - n = length (match_left s2) - length (match_left s) \<and>
                   length (match_left s) \<le> length (match_left s2)
            else final graph left_nodes (s\<lparr>dist := d'\<rparr>)"
    by blast
  show ?case
  proof (cases "d' None = \<infinity>")
    case True
    with rest have "final graph left_nodes (s\<lparr>dist := d'\<rparr>)" by simp
    moreover from run True have "hk_loop graph left_nodes s n = Some (s\<lparr>dist := d'\<rparr>, n)"
      by (subst hk_loop.simps) simp
    moreover from run True f have "hk_loop_lim limit graph left_nodes s n = Some (Inr (s\<lparr>dist := d'\<rparr>, n))"
      by (subst hk_loop_lim.simps) simp
    ultimately show ?thesis by simp
  next
    case False
    with rest obtain s2 n2 where
      ph: "dfs_phase graph left_nodes (s\<lparr>dist := d'\<rparr>) n = Some (s2, n2)"
      and phl: "dfs_phase_lim limit graph left_nodes (s\<lparr>dist := d'\<rparr>) n = Inr (s2, n2)"
      and inv2: "hk_inv graph left_nodes s2" and lt: "n < n2"
      and diff: "n2 - n = length (match_left s2) - length (match_left s)"
      and le: "length (match_left s) \<le> length (match_left s2)"
      by auto
    from lt diff le have grow: "length (match_left s) < length (match_left s2)" by arith
    from hk_inv_length [OF inv2] grow
    have "card (set left_nodes) - length (match_left s2) < card (set left_nodes) - length (match_left s)"
      by arith
    from less.hyps [OF this inv2, of n2] obtain s' n' where
      r: "hk_loop_lim limit graph left_nodes s2 n2 = Some (Inr (s', n'))"
      "hk_loop graph left_nodes s2 n2 = Some (s', n')" "final graph left_nodes s'"
      "n' - n2 = length (match_left s') - length (match_left s2)" "n2 \<le> n'"
      "length (match_left s2) \<le> length (match_left s')"
      by blast
    from run False ph have "hk_loop graph left_nodes s n = hk_loop graph left_nodes s2 n2"
      by (subst hk_loop.simps) simp
    with r(2) have run1: "hk_loop graph left_nodes s n = Some (s', n')" by simp
    from run False phl f have "hk_loop_lim limit graph left_nodes s n = hk_loop_lim limit graph left_nodes s2 n2"
      by (subst hk_loop_lim.simps) simp
    with r(1) have run2: "hk_loop_lim limit graph left_nodes s n = Some (Inr (s', n'))" by simp
    from r(4,5,6) lt diff le have "n' - n = length (match_left s') - length (match_left s)"
      "n \<le> n'" "length (match_left s) \<le> length (match_left s')" by arith+
    with run1 run2 r(3) show ?thesis by blast
  qed
qed

lemma hopcroft_karp_lim_total:
  assumes "distinct left_nodes" and "length left_nodes < limit"
  shows "\<exists>ml. hopcroft_karp_lim limit graph left_nodes = Some (Inr ml) \<and>
           hopcroft_karp graph left_nodes = Some ml \<and> distinct (map fst ml) \<and>
           distinct (map snd ml) \<and> matching graph left_nodes (set ml) \<and>
           (\<forall>M. matching graph left_nodes M \<longrightarrow> card M \<le> length ml)"
proof -
  from hk_loop_lim_correct [OF hk_inv_init assms, of graph 0] obtain s' n' where
    runl: "hk_loop_lim limit graph left_nodes hk_init 0 = Some (Inr (s', n'))"
    and run: "hk_loop graph left_nodes hk_init 0 = Some (s', n')"
    and fin: "final graph left_nodes s'"
    by blast
  from fin have inv: "hk_inv graph left_nodes s'" by (simp add: final_def)
  then have c: "cons s'" and b: "basic_inv graph left_nodes s'" by (simp_all add: hk_inv_def)
  from run have "hopcroft_karp graph left_nodes = Some (match_left s')"
    by (simp add: hopcroft_karp_def)
  moreover from runl have "hopcroft_karp_lim limit graph left_nodes = Some (Inr (match_left s'))"
    by (simp add: hopcroft_karp_lim_def)
  ultimately show ?thesis
    using cons_distinct [OF c] cons_matching [OF c b] final_max [OF fin] by blast
qed

subsection \<open>The loop over the group pairs\<close>

lemma match_loop_rule:
  assumes "match_loop swaps keys proc acc = Some out"
    and "P proc acc"
    and "\<And>A B proc acc. P proc acc \<Longrightarrow> (A, B) \<in> set keys \<Longrightarrow> (A, B) \<notin> proc \<Longrightarrow>
           (B, A) \<notin> fst ` set swaps \<Longrightarrow> P (insert (A, B) proc) acc"
    and "\<And>A B proc acc graph. P proc acc \<Longrightarrow> (A, B) \<in> set keys \<Longrightarrow> (A, B) \<notin> proc \<Longrightarrow>
           (B, A) \<in> fst ` set swaps \<Longrightarrow>
           build_graph (swaps_get swaps (A, B)) (swaps_get swaps (B, A)) (\<lambda>_. []) [] = (graph, []) \<Longrightarrow>
           P (insert (B, A) (insert (A, B) proc)) acc"
    and "\<And>A B proc acc graph left_ids ml. P proc acc \<Longrightarrow> (A, B) \<in> set keys \<Longrightarrow> (A, B) \<notin> proc \<Longrightarrow>
           (B, A) \<in> fst ` set swaps \<Longrightarrow>
           build_graph (swaps_get swaps (A, B)) (swaps_get swaps (B, A)) (\<lambda>_. []) [] = (graph, left_ids) \<Longrightarrow>
           left_ids \<noteq> [] \<Longrightarrow> hopcroft_karp graph left_ids = Some ml \<Longrightarrow>
           P (insert (B, A) (insert (A, B) proc)) (acc @ map paired ml)"
  shows "\<exists>proc'. P proc' out"
  using assms
proof (induction keys arbitrary: proc acc)
  case Nil
  then show ?case by auto
next
  case (Cons k keys)
  obtain A B where k: "k = (A, B)" by (cases k)
  note IH = Cons.IH [OF _ _ Cons.prems(3) Cons.prems(4) Cons.prems(5)]
  have mem: "(A, B) \<in> set (k # keys)" by (simp add: k)
  show ?case
  proof (cases "(A, B) \<in> proc")
    case True
    with Cons.prems(1) have "match_loop swaps keys proc acc = Some out" by (simp add: k)
    from IH [OF this Cons.prems(2)] show ?thesis by simp
  next
    case notproc: False
    show ?thesis
    proof (cases "(B, A) \<in> fst ` set swaps")
      case False
      with notproc Cons.prems(1)
      have run: "match_loop swaps keys (insert (A, B) proc) acc = Some out" by (simp add: k)
      have "P (insert (A, B) proc) acc"
        using Cons.prems(3) [OF Cons.prems(2) mem notproc False] .
      from IH [OF run this] show ?thesis by simp
    next
      case rev: True
      obtain graph left_ids where bg:
        "build_graph (swaps_get swaps (A, B)) (swaps_get swaps (B, A)) (\<lambda>_. []) [] = (graph, left_ids)"
        by (cases "build_graph (swaps_get swaps (A, B)) (swaps_get swaps (B, A)) (\<lambda>_. []) []")
      show ?thesis
      proof (cases "left_ids = []")
        case True
        with notproc rev bg Cons.prems(1)
        have run: "match_loop swaps keys (insert (B, A) (insert (A, B) proc)) acc = Some out"
          by (simp add: k)
        have "P (insert (B, A) (insert (A, B) proc)) acc"
          using Cons.prems(4) [OF Cons.prems(2) mem notproc rev] bg True by simp
        from IH [OF run this] show ?thesis by simp
      next
        case False
        with notproc rev bg Cons.prems(1) obtain ml where
          hk: "hopcroft_karp graph left_ids = Some ml" and
          run: "match_loop swaps keys (insert (B, A) (insert (A, B) proc)) (acc @ map paired ml) = Some out"
          by (auto simp: k split: option.splits)
        have "P (insert (B, A) (insert (A, B) proc)) (acc @ map paired ml)"
          using Cons.prems(5) [OF Cons.prems(2) mem notproc rev bg False hk] .
        from IH [OF run this] show ?thesis by simp
      qed
    qed
  qed
qed

lemma match_loop_sorted:
  assumes "match_loop swaps keys processed_pairs acc = Some out"
    and "\<forall>p \<in> set acc. fst p \<le> snd p"
  shows "\<forall>p \<in> set out. fst p \<le> snd p"
proof -
  have "\<exists>proc' :: ('b \<times> 'b) set. \<forall>p \<in> set out. fst p \<le> snd p"
    by (rule match_loop_rule [OF assms(1), where P = "\<lambda>_ acc. \<forall>p \<in> set acc. fst p \<le> snd p"])
      (use assms(2) in \<open>auto simp: paired_def\<close>)
  then show ?thesis by simp
qed

lemma partition_swaps_filter:
  "partition_swaps (filter (\<lambda>r. current_group r \<noteq> desired_group r) xs) swaps = partition_swaps xs swaps"
  by (induction xs arbitrary: swaps) auto

subsection \<open>Partitions, graphs and the origin of a pair\<close>

lemma swaps_get_Nil [simp]: "swaps_get [] key = []"
  by (simp add: swaps_get_def)

lemma swaps_get_append:
  "swaps_get (swaps_append key r swaps) key' =
     (if key' = key then swaps_get swaps key @ [r] else swaps_get swaps key')"
  by (induction swaps) (auto simp: swaps_get_def)

lemma swaps_append_map_fst:
  "map fst (swaps_append key r swaps) =
     (if key \<in> set (map fst swaps) then map fst swaps else map fst swaps @ [key])"
  by (induction swaps) (auto simp: rev_image_eqI)

lemma swaps_append_keys: "fst ` set (swaps_append key r swaps) = insert key (fst ` set swaps)"
proof -
  have "set (map fst (swaps_append key r swaps)) = insert key (set (map fst swaps))"
    unfolding swaps_append_map_fst by auto
  then show ?thesis by simp
qed

lemma swaps_get_partition:
  "swaps_get (partition_swaps xs swaps) key =
     swaps_get swaps key @ filter (\<lambda>r. direction r = key \<and> active r) xs"
  by (induction xs arbitrary: swaps) (auto simp: swaps_get_append)

lemma partition_swaps_keys:
  "fst ` set (partition_swaps xs swaps) = fst ` set swaps \<union> direction ` {r \<in> set xs. active r}"
  by (induction xs arbitrary: swaps) (auto simp: swaps_append_keys)

lemma valid_iff:
  "valid r_i r_j \<longleftrightarrow>
     (accept_swap r_i \<or> teammate_id r_i = Some (student_id r_j)) \<and>
     (accept_swap r_j \<or> teammate_id r_j = Some (student_id r_i))"
  by (auto simp: valid_def Let_def)

lemma valid_sym: "valid r_i r_j \<longleftrightarrow> valid r_j r_i"
  by (auto simp: valid_iff)

lemma add_edges_eq:
  "add_edges r_i V graph =
     graph(student_id r_i := graph (student_id r_i) @ map student_id (filter (valid r_i) V))"
  by (induction V arbitrary: graph) auto

lemma build_graph_snd: "snd (build_graph U V graph left_ids) = left_ids @ map student_id U"
  by (induction U arbitrary: graph left_ids) auto

lemma build_graph_fst:
  "set (fst (build_graph U V graph left_ids) u) =
     set (graph u) \<union>
     {student_id r_j | r_i r_j. r_i \<in> set U \<and> student_id r_i = u \<and> r_j \<in> set V \<and> valid r_i r_j}"
proof (induction U arbitrary: graph left_ids)
  case Nil
  then show ?case by simp
next
  case (Cons r U)
  show ?case
    unfolding build_graph.simps Cons.IH add_edges_eq by auto
qed

lemma graph_edge_origin:
  assumes bg: "build_graph (swaps_get (partition_swaps xs []) (A, B))
                 (swaps_get (partition_swaps xs []) (B, A)) (\<lambda>_. []) [] = (graph, left_ids)"
    and u: "u \<in> set left_ids" and v: "v \<in> set (graph u)"
  shows "\<exists>r_i r_j. r_i \<in> set xs \<and> r_j \<in> set xs \<and> direction r_i = (A, B) \<and> active r_i \<and>
           direction r_j = (B, A) \<and> valid r_i r_j \<and> student_id r_i = u \<and> student_id r_j = v"
proof -
  let ?U = "swaps_get (partition_swaps xs []) (A, B)"
  let ?V = "swaps_get (partition_swaps xs []) (B, A)"
  from bg have "graph = fst (build_graph ?U ?V (\<lambda>_. []) [])" by simp
  with v have "v \<in> {student_id r_j | r_i r_j. r_i \<in> set ?U \<and> student_id r_i = u \<and> r_j \<in> set ?V \<and> valid r_i r_j}"
    by (simp only: build_graph_fst) simp
  then obtain r_i r_j where r: "r_i \<in> set ?U" "student_id r_i = u" "r_j \<in> set ?V" "valid r_i r_j"
    "v = student_id r_j" by blast
  from r(1) have "r_i \<in> set xs" "direction r_i = (A, B)" "active r_i"
    by (auto simp: swaps_get_partition)
  moreover from r(3) have "r_j \<in> set xs" "direction r_j = (B, A)"
    by (auto simp: swaps_get_partition)
  ultimately show ?thesis using r by blast
qed

lemma match_student_pairs_origin:
  assumes "match_student_pairs xs = Some out" and "p \<in> set out"
  shows "origin xs p"
proof -
  let ?swaps = "partition_swaps xs []"
  from assms(1) have run: "match_loop ?swaps (map fst ?swaps) {} [] = Some out"
    by (simp add: match_student_pairs_def Let_def)
  have "\<exists>proc' :: ('b \<times> 'b) set. \<forall>p \<in> set out. origin xs p"
  proof (rule match_loop_rule [OF run, where P = "\<lambda>_ acc. \<forall>p \<in> set acc. origin xs p"])
    show "\<forall>p \<in> set []. origin xs p" by simp
  next
    fix A B :: 'b and acc :: "('a \<times> 'a) list" and graph left_ids ml
    assume acc: "\<forall>p \<in> set acc. origin xs p"
      and bg: "build_graph (swaps_get ?swaps (A, B)) (swaps_get ?swaps (B, A)) (\<lambda>_. []) [] = (graph, left_ids)"
      and hk: "hopcroft_karp graph left_ids = Some ml"
    have "origin xs (paired e)" if "e \<in> set ml" for e
    proof -
      obtain u v where e: "e = (u, v)" by (cases e)
      with that hopcroft_karp_edges [OF hk] have "u \<in> set left_ids" "v \<in> set (graph u)" by auto
      from graph_edge_origin [OF bg this] obtain r_i r_j where
        "r_i \<in> set xs" "r_j \<in> set xs" "direction r_i = (A, B)" "active r_i"
        "direction r_j = (B, A)" "valid r_i r_j" "student_id r_i = u" "student_id r_j = v"
        by blast
      then show ?thesis unfolding origin_def e by auto
    qed
    with acc show "\<forall>p \<in> set (acc @ map paired ml). origin xs p" by auto
  qed simp_all
  with assms(2) show ?thesis by simp
qed

subsection \<open>Runs on pairwise distinct ids\<close>

lemma match_loop_total:
  assumes "\<And>A B graph left_ids. (A, B) \<in> set keys \<Longrightarrow>
      build_graph (swaps_get swaps (A, B)) (swaps_get swaps (B, A)) (\<lambda>_. []) [] = (graph, left_ids) \<Longrightarrow>
      \<exists>ml. hopcroft_karp graph left_ids = Some ml"
  shows "\<exists>out. match_loop swaps keys proc acc = Some out"
  using assms
proof (induction keys arbitrary: proc acc)
  case Nil
  show ?case by simp
next
  case (Cons k keys)
  obtain A B where k: "k = (A, B)" by (cases k)
  have IH: "\<exists>out. match_loop swaps keys proc' acc' = Some out" for proc' acc'
  proof (rule Cons.IH)
    fix A B graph left_ids
    assume "(A, B) \<in> set keys"
      and "build_graph (swaps_get swaps (A, B)) (swaps_get swaps (B, A)) (\<lambda>_. []) [] = (graph, left_ids)"
    then show "\<exists>ml. hopcroft_karp graph left_ids = Some ml"
      using Cons.prems [of A B graph left_ids] by simp
  qed
  obtain graph left_ids where bg:
    "build_graph (swaps_get swaps (A, B)) (swaps_get swaps (B, A)) (\<lambda>_. []) [] = (graph, left_ids)"
    by (cases "build_graph (swaps_get swaps (A, B)) (swaps_get swaps (B, A)) (\<lambda>_. []) []")
  from Cons.prems [of A B graph left_ids] bg k obtain ml where
    hk: "hopcroft_karp graph left_ids = Some ml" by auto
  show ?case
    unfolding k match_loop.simps using IH bg hk by (simp split: if_splits)
qed

lemma distinct_ids_filter:
  "distinct (map student_id xs) \<Longrightarrow> distinct (map student_id (filter P xs))"
  by (rule distinct_map_filter)

lemma match_student_pairs_total:
  assumes "distinct (map student_id xs)"
  shows "\<exists>out. match_student_pairs xs = Some out"
proof -
  let ?swaps = "partition_swaps xs []"
  have "\<exists>out. match_loop ?swaps (map fst ?swaps) {} [] = Some out"
  proof (rule match_loop_total)
    fix A B :: 'b and graph :: "'a \<Rightarrow> 'a list" and left_ids
    assume "build_graph (swaps_get ?swaps (A, B)) (swaps_get ?swaps (B, A)) (\<lambda>_. []) [] = (graph, left_ids)"
    then have "left_ids = snd (build_graph (swaps_get ?swaps (A, B)) (swaps_get ?swaps (B, A)) (\<lambda>_. []) [])"
      by simp
    then have "left_ids = map student_id (filter (\<lambda>r. direction r = (A, B) \<and> active r) xs)"
      by (simp add: build_graph_snd swaps_get_partition)
    with distinct_ids_filter [OF assms] have "distinct left_ids" by simp
    from hopcroft_karp_total [OF this, of graph]
    show "\<exists>ml. hopcroft_karp graph left_ids = Some ml" by blast
  qed
  then show ?thesis by (simp add: match_student_pairs_def Let_def)
qed

lemma unique_request:
  assumes "distinct (map student_id xs)" and "r \<in> set xs" and "r' \<in> set xs"
    and "student_id r = student_id r'"
  shows "r = r'"
proof -
  from assms(1) have "inj_on student_id (set xs)" by (simp add: distinct_map)
  with assms(2-4) show ?thesis by (simp add: inj_on_def)
qed

lemma pair_requests:
  assumes "match_student_pairs xs = Some out" and "(s1, s2) \<in> set out"
  shows "\<exists>r1 r2. r1 \<in> set xs \<and> r2 \<in> set xs \<and> student_id r1 = s1 \<and> student_id r2 = s2 \<and>
           active r1 \<and> active r2 \<and>
           current_group r1 = desired_group r2 \<and> current_group r2 = desired_group r1 \<and>
           valid r1 r2"
proof -
  from match_student_pairs_origin [OF assms] obtain r_i r_j where
    o: "r_i \<in> set xs" "r_j \<in> set xs" "active r_i"
    "direction r_j = (desired_group r_i, current_group r_i)" "valid r_i r_j"
    "(s1, s2) = paired (student_id r_i, student_id r_j)"
    unfolding origin_def by blast
  from o(3,4) have aj: "active r_j" by auto
  show ?thesis
  proof (cases "student_id r_j < student_id r_i")
    case True
    with o(6) have "s1 = student_id r_j" "s2 = student_id r_i" by (simp_all add: paired_def)
    moreover from o(5) have "valid r_j r_i" by (simp add: valid_sym)
    moreover from o(4) have "current_group r_j = desired_group r_i"
      "current_group r_i = desired_group r_j" by simp_all
    ultimately show ?thesis using o(1,2,3) aj by blast
  next
    case False
    with o(6) have "s1 = student_id r_i" "s2 = student_id r_j" by (simp_all add: paired_def)
    moreover from o(4) have "current_group r_i = desired_group r_j"
      "current_group r_j = desired_group r_i" by simp_all
    ultimately show ?thesis using o(1,2,3,5) aj by blast
  qed
qed

lemma partition_swaps_filter_active:
  "partition_swaps (filter active xs) swaps = partition_swaps xs swaps"
  by (induction xs arbitrary: swaps) auto

subsection \<open>Ids across the output\<close>

lemma ids_simps [simp]:
  "ids [] = []" "ids (p # ps) = fst p # snd p # ids ps" "ids (ps @ qs) = ids ps @ ids qs"
  by (simp_all add: ids_def)

lemma set_ids: "set (ids ps) = fst ` set ps \<union> snd ` set ps"
  by (induction ps) auto

lemma set_paired: "{fst (paired e), snd (paired e)} = {fst e, snd e}"
  by (cases e) (auto simp: paired_def)

lemma set_ids_paired: "set (ids (map paired ml)) = fst ` set ml \<union> snd ` set ml"
proof (induction ml)
  case Nil
  show ?case by simp
next
  case (Cons e ml)
  have "set (ids (map paired (e # ml))) = {fst (paired e), snd (paired e)} \<union> set (ids (map paired ml))"
    by auto
  also have "\<dots> = {fst e, snd e} \<union> (fst ` set ml \<union> snd ` set ml)"
    by (simp only: set_paired Cons.IH)
  finally show ?case by auto
qed

lemma distinct_ids_paired:
  assumes "distinct (map fst ml)" and "distinct (map snd ml)"
    and "fst ` set ml \<inter> snd ` set ml = {}"
  shows "distinct (ids (map paired ml))"
  using assms
proof (induction ml)
  case Nil
  show ?case by simp
next
  case (Cons e ml)
  from Cons.prems have IH: "distinct (ids (map paired ml))"
    by (intro Cons.IH) auto
  from Cons.prems(3) have ne: "fst e \<noteq> snd e" by auto
  from Cons.prems have "fst e \<notin> fst ` set ml" "snd e \<notin> snd ` set ml"
    "fst e \<notin> snd ` set ml" "snd e \<notin> fst ` set ml" by auto
  then have out: "fst e \<notin> set (ids (map paired ml))" "snd e \<notin> set (ids (map paired ml))"
    by (simp_all add: set_ids_paired)
  have "paired e = e \<or> paired e = (snd e, fst e)"
    by (cases e) (auto simp: paired_def)
  with IH ne out show ?case by auto
qed

lemma match_student_pairs_unique:
  assumes d: "distinct (map student_id xs)" and run: "match_student_pairs xs = Some out"
  shows "distinct (ids out)"
proof -
  let ?swaps = "partition_swaps xs []"
  from run have run': "match_loop ?swaps (map fst ?swaps) {} [] = Some out"
    by (simp add: match_student_pairs_def Let_def)
  have "\<exists>proc'. unique_inv xs proc' out"
  proof (rule match_loop_rule [OF run', where P = "unique_inv xs"])
    show "unique_inv xs {} []" by (simp add: unique_inv_def)
  next
    fix A B :: 'b and proc acc
    assume "unique_inv xs proc acc" "(B, A) \<notin> fst ` set ?swaps"
    then show "unique_inv xs (insert (A, B) proc) acc"
      unfolding unique_inv_def swapped_def by auto
  next
    fix A B :: 'b and proc acc and graph :: "'a \<Rightarrow> 'a list"
    assume "unique_inv xs proc acc"
    then show "unique_inv xs (insert (B, A) (insert (A, B) proc)) acc"
      unfolding unique_inv_def swapped_def by auto
  next
    fix A B :: 'b and proc acc and graph :: "'a \<Rightarrow> 'a list" and left_ids ml
    assume inv: "unique_inv xs proc acc" and key: "(A, B) \<in> set (map fst ?swaps)"
      and np: "(A, B) \<notin> proc"
      and bg: "build_graph (swaps_get ?swaps (A, B)) (swaps_get ?swaps (B, A)) (\<lambda>_. []) [] = (graph, left_ids)"
      and hk: "hopcroft_karp graph left_ids = Some ml"
    from inv have dacc: "distinct (ids acc)"
      and old: "\<And>x. x \<in> set (ids acc) \<Longrightarrow> \<exists>r \<in> set xs. student_id r = x \<and> direction r \<in> proc"
      and sym: "\<And>k. k \<in> proc \<Longrightarrow> swapped k \<in> proc \<or> swapped k \<notin> fst ` set ?swaps"
      unfolding unique_inv_def by blast+
    from sym [of "(B, A)"] np key have np': "(B, A) \<notin> proc" by (auto simp: swapped_def)
    from bg have "left_ids = snd (build_graph (swaps_get ?swaps (A, B)) (swaps_get ?swaps (B, A)) (\<lambda>_. []) [])"
      by simp
    then have "left_ids = map student_id (filter (\<lambda>r. direction r = (A, B) \<and> active r) xs)"
      by (simp add: build_graph_snd swaps_get_partition)
    with distinct_ids_filter [OF d] have "distinct left_ids" by simp
    from hopcroft_karp_total [OF this, of graph] hk
    have dl: "distinct (map fst ml)" and dr: "distinct (map snd ml)" by auto
    have req: "\<exists>r_i r_j. r_i \<in> set xs \<and> r_j \<in> set xs \<and> direction r_i = (A, B) \<and> active r_i \<and>
           direction r_j = (B, A) \<and> student_id r_i = fst e \<and> student_id r_j = snd e"
      if "e \<in> set ml" for e
    proof -
      from that hopcroft_karp_edges [OF hk] have "fst e \<in> set left_ids" "snd e \<in> set (graph (fst e))"
        by (auto simp: case_prod_beta)
      from graph_edge_origin [OF bg this] show ?thesis by blast
    qed
    have left: "\<exists>r \<in> set xs. student_id r = x \<and> direction r = (A, B) \<and> active r"
      if "x \<in> fst ` set ml" for x
    proof -
      from that obtain e where "e \<in> set ml" "x = fst e" by blast
      with req [of e] show ?thesis by metis
    qed
    have right: "\<exists>r \<in> set xs. student_id r = x \<and> direction r = (B, A)"
      if "x \<in> snd ` set ml" for x
    proof -
      from that obtain e where "e \<in> set ml" "x = snd e" by blast
      with req [of e] show ?thesis by metis
    qed
    have disj: "fst ` set ml \<inter> snd ` set ml = {}"
    proof (rule ccontr)
      assume "fst ` set ml \<inter> snd ` set ml \<noteq> {}"
      then obtain x where "x \<in> fst ` set ml" "x \<in> snd ` set ml" by blast
      from left [OF this(1)] obtain r where
        r: "r \<in> set xs" "student_id r = x" "direction r = (A, B)" "active r" by blast
      from right [OF \<open>x \<in> snd ` set ml\<close>] obtain r' where
        r': "r' \<in> set xs" "student_id r' = x" "direction r' = (B, A)" by blast
      from r(2) r'(2) have "student_id r = student_id r'" by simp
      from unique_request [OF d r(1) r'(1) this] have "r = r'" .
      with r(3) r'(3) have "A = B" by (metis prod.inject)
      with r(3,4) show False by (metis prod.inject)
    qed
    from distinct_ids_paired [OF dl dr disj] have dnew: "distinct (ids (map paired ml))" .
    have new: "\<exists>r \<in> set xs. student_id r = x \<and> (direction r = (A, B) \<or> direction r = (B, A))"
      if "x \<in> set (ids (map paired ml))" for x
      using that left [of x] right [of x] unfolding set_ids_paired by blast
    have sep: "set (ids acc) \<inter> set (ids (map paired ml)) = {}"
    proof (rule ccontr)
      assume "set (ids acc) \<inter> set (ids (map paired ml)) \<noteq> {}"
      then obtain x where "x \<in> set (ids acc)" "x \<in> set (ids (map paired ml))" by blast
      from old [OF this(1)] obtain r where
        r: "r \<in> set xs" "student_id r = x" "direction r \<in> proc" by blast
      from new [OF \<open>x \<in> set (ids (map paired ml))\<close>] obtain r' where
        r': "r' \<in> set xs" "student_id r' = x" "direction r' = (A, B) \<or> direction r' = (B, A)"
        by blast
      from r(2) r'(2) have "student_id r = student_id r'" by simp
      from unique_request [OF d r(1) r'(1) this] have "r = r'" .
      with r(3) r'(3) have "(A, B) \<in> proc \<or> (B, A) \<in> proc" by metis
      with np np' show False by blast
    qed
    show "unique_inv xs (insert (B, A) (insert (A, B) proc)) (acc @ map paired ml)"
      unfolding unique_inv_def
    proof (intro conjI ballI)
      show "distinct (ids (acc @ map paired ml))" using dacc dnew sep by simp
    next
      fix x assume "x \<in> set (ids (acc @ map paired ml))"
      then have "x \<in> set (ids acc) \<or> x \<in> set (ids (map paired ml))" by simp
      then show "\<exists>r \<in> set xs. student_id r = x \<and> direction r \<in> insert (B, A) (insert (A, B) proc)"
        using old [of x] new [of x] by auto
    next
      fix k assume "k \<in> insert (B, A) (insert (A, B) proc)"
      then show "swapped k \<in> insert (B, A) (insert (A, B) proc) \<or> swapped k \<notin> fst ` set ?swaps"
        using sym [of k] by (auto simp: swapped_def)
    qed
  qed
  then show ?thesis by (auto simp: unique_inv_def)
qed

subsection \<open>Partitions with an eligible pair\<close>

lemma match_loop_prefix:
  assumes "match_loop swaps keys proc acc = Some out"
  shows "set acc \<subseteq> set out"
proof -
  have "\<exists>proc' :: ('b \<times> 'b) set. set acc \<subseteq> set out"
    by (rule match_loop_rule [OF assms, where P = "\<lambda>_ acc'. set acc \<subseteq> set acc'"]) auto
  then show ?thesis by simp
qed

lemma match_loop_emits:
  assumes "match_loop swaps keys proc acc = Some out"
    and "(A, B) \<in> set keys \<or> (B, A) \<in> set keys"
    and "(A, B) \<notin> proc" and "(B, A) \<notin> proc"
    and "(A, B) \<in> fst ` set swaps" and "(B, A) \<in> fst ` set swaps"
    and "productive swaps A B" and "productive swaps B A"
  shows "\<exists>X Y graph left_ids ml e. ((X, Y) = (A, B) \<or> (X, Y) = (B, A)) \<and>
           build_graph (swaps_get swaps (X, Y)) (swaps_get swaps (Y, X)) (\<lambda>_. []) [] = (graph, left_ids) \<and>
           hopcroft_karp graph left_ids = Some ml \<and> e \<in> set ml \<and> paired e \<in> set out"
  using assms(1-4)
proof (induction keys arbitrary: proc acc)
  case Nil
  then show ?case by simp
next
  case (Cons k keys)
  obtain C D where k: "k = (C, D)" by (cases k)
  note run = Cons.prems(1) [unfolded k]
  show ?case
  proof (cases "(C, D) = (A, B) \<or> (C, D) = (B, A)")
    case True
    with Cons.prems(3,4) have np: "(C, D) \<notin> proc" by auto
    from True assms(5,6) have rev: "(D, C) \<in> fst ` set swaps" by auto
    from True assms(7,8) have prod: "productive swaps C D" by auto
    obtain graph left_ids where bg:
      "build_graph (swaps_get swaps (C, D)) (swaps_get swaps (D, C)) (\<lambda>_. []) [] = (graph, left_ids)"
      by (cases "build_graph (swaps_get swaps (C, D)) (swaps_get swaps (D, C)) (\<lambda>_. []) []")
    with prod have ne: "left_ids \<noteq> []"
      and nonempty: "\<And>ml. hopcroft_karp graph left_ids = Some ml \<Longrightarrow> ml \<noteq> []"
      unfolding productive_def by blast+
    from run np rev bg ne obtain ml where hk: "hopcroft_karp graph left_ids = Some ml"
      and rest: "match_loop swaps keys (insert (D, C) (insert (C, D) proc)) (acc @ map paired ml) = Some out"
      by (auto split: option.splits)
    from nonempty [OF hk] obtain e where e: "e \<in> set ml" by (cases ml) auto
    then have "paired e \<in> set (acc @ map paired ml)" by simp
    with match_loop_prefix [OF rest] have "paired e \<in> set out" by blast
    with True bg hk e show ?thesis by blast
  next
    case False
    then have ne1: "(C, D) \<noteq> (A, B)" "(C, D) \<noteq> (B, A)" by blast+
    then have ne2: "(D, C) \<noteq> (A, B)" "(D, C) \<noteq> (B, A)" by auto
    from Cons.prems(2) ne1 k have keys: "(A, B) \<in> set keys \<or> (B, A) \<in> set keys" by auto
    show ?thesis
    proof (cases "(C, D) \<in> proc")
      case True
      with run have "match_loop swaps keys proc acc = Some out" by simp
      from Cons.IH [OF this keys Cons.prems(3,4)] show ?thesis .
    next
      case np: False
      show ?thesis
      proof (cases "(D, C) \<in> fst ` set swaps")
        case False
        with run np have r: "match_loop swaps keys (insert (C, D) proc) acc = Some out" by simp
        from Cons.prems(3,4) ne1 have "(A, B) \<notin> insert (C, D) proc" "(B, A) \<notin> insert (C, D) proc"
          by auto
        from Cons.IH [OF r keys this] show ?thesis .
      next
        case rev: True
        let ?proc = "insert (D, C) (insert (C, D) proc)"
        from Cons.prems(3,4) ne1 ne2 have notin: "(A, B) \<notin> ?proc" "(B, A) \<notin> ?proc" by auto
        obtain graph left_ids where bg:
          "build_graph (swaps_get swaps (C, D)) (swaps_get swaps (D, C)) (\<lambda>_. []) [] = (graph, left_ids)"
          by (cases "build_graph (swaps_get swaps (C, D)) (swaps_get swaps (D, C)) (\<lambda>_. []) []")
        show ?thesis
        proof (cases "left_ids = []")
          case True
          with run np rev bg have r: "match_loop swaps keys ?proc acc = Some out" by simp
          from Cons.IH [OF r keys notin] show ?thesis .
        next
          case False
          with run np rev bg obtain ml where
            r: "match_loop swaps keys ?proc (acc @ map paired ml) = Some out"
            by (auto split: option.splits)
          from Cons.IH [OF r keys notin] show ?thesis .
        qed
      qed
    qed
  qed
qed

lemma flexible_productive:
  assumes d: "distinct (map student_id xs)"
    and a: "r_a \<in> set xs" "accept_swap r_a" "direction r_a = (X, Y)"
    and b: "r_b \<in> set xs" "accept_swap r_b" "direction r_b = (Y, X)"
    and ne: "X \<noteq> Y"
  shows "productive (partition_swaps xs []) X Y"
  unfolding productive_def
proof (intro allI impI)
  let ?swaps = "partition_swaps xs []"
  fix graph :: "'a \<Rightarrow> 'a list" and left_ids
  assume bg: "build_graph (swaps_get ?swaps (X, Y)) (swaps_get ?swaps (Y, X)) (\<lambda>_. []) [] = (graph, left_ids)"
  from a ne have aU: "r_a \<in> set (swaps_get ?swaps (X, Y))"
    by (auto simp: swaps_get_partition)
  from b ne have bV: "r_b \<in> set (swaps_get ?swaps (Y, X))"
    by (auto simp: swaps_get_partition)
  from bg have l: "left_ids = snd (build_graph (swaps_get ?swaps (X, Y)) (swaps_get ?swaps (Y, X)) (\<lambda>_. []) [])"
    and g: "graph = fst (build_graph (swaps_get ?swaps (X, Y)) (swaps_get ?swaps (Y, X)) (\<lambda>_. []) [])"
    by simp_all
  from l aU have uin: "student_id r_a \<in> set left_ids" by (simp add: build_graph_snd)
  from a(2) b(2) have "valid r_a r_b" by (simp add: valid_iff)
  with aU bV have vin: "student_id r_b \<in> set (graph (student_id r_a))"
    unfolding g build_graph_fst by auto
  from l have "left_ids = map student_id (filter (\<lambda>r. direction r = (X, Y) \<and> active r) xs)"
    by (simp add: build_graph_snd swaps_get_partition)
  with distinct_ids_filter [OF d] have dl: "distinct left_ids" by simp
  have m: "matching graph left_ids {(student_id r_a, student_id r_b)}"
    using uin vin by (simp add: matching_def edges_def)
  have "ml \<noteq> []" if hk: "hopcroft_karp graph left_ids = Some ml" for ml
  proof -
    from hopcroft_karp_total [OF dl, of graph] hk
    have "\<forall>M. matching graph left_ids M \<longrightarrow> card M \<le> length ml" by auto
    with m have "card {(student_id r_a, student_id r_b)} \<le> length ml" by blast
    then show ?thesis by auto
  qed
  moreover from uin have "left_ids \<noteq> []" by auto
  ultimately show "left_ids \<noteq> [] \<and> (\<forall>ml. hopcroft_karp graph left_ids = Some ml \<longrightarrow> ml \<noteq> [])"
    by blast
qed

lemma flexible_pair_emitted:
  assumes d: "distinct (map student_id xs)"
    and a: "r_a \<in> set xs" "accept_swap r_a" "direction r_a = (A, B)"
    and b: "r_b \<in> set xs" "accept_swap r_b" "direction r_b = (B, A)"
    and ne: "A \<noteq> B"
  shows "\<exists>out. match_student_pairs xs = Some out \<and>
           (\<exists>r1 r2. r1 \<in> set xs \<and> r2 \<in> set xs \<and> direction r1 = (A, B) \<and> direction r2 = (B, A) \<and>
              paired (student_id r1, student_id r2) \<in> set out)"
proof -
  let ?swaps = "partition_swaps xs []"
  from match_student_pairs_total [OF d] obtain out where run: "match_student_pairs xs = Some out"
    by blast
  then have run': "match_loop ?swaps (map fst ?swaps) {} [] = Some out"
    by (simp add: match_student_pairs_def Let_def)
  from a ne have ka: "(A, B) \<in> fst ` set ?swaps"
    unfolding partition_swaps_keys by force
  from b ne have kb: "(B, A) \<in> fst ` set ?swaps"
    unfolding partition_swaps_keys by force
  from ka have k: "(A, B) \<in> set (map fst ?swaps) \<or> (B, A) \<in> set (map fst ?swaps)" by simp
  from ne have ne': "B \<noteq> A" by simp
  note p1 = flexible_productive [OF d a b ne]
  note p2 = flexible_productive [OF d b a ne']
  have "(A, B) \<notin> {}" "(B, A) \<notin> {}" by simp_all
  from match_loop_emits [OF run' k this ka kb p1 p2] obtain X Y graph left_ids ml e where
    xy: "(X, Y) = (A, B) \<or> (X, Y) = (B, A)"
    and bg: "build_graph (swaps_get ?swaps (X, Y)) (swaps_get ?swaps (Y, X)) (\<lambda>_. []) [] = (graph, left_ids)"
    and hk: "hopcroft_karp graph left_ids = Some ml" and e: "e \<in> set ml"
    and pe: "paired e \<in> set out"
    by blast
  from e hopcroft_karp_edges [OF hk] have "fst e \<in> set left_ids" "snd e \<in> set (graph (fst e))"
    by (auto simp: case_prod_beta)
  from graph_edge_origin [OF bg this] obtain r_i r_j where
    r: "r_i \<in> set xs" "r_j \<in> set xs" "direction r_i = (X, Y)" "direction r_j = (Y, X)"
    "student_id r_i = fst e" "student_id r_j = snd e" by blast
  have sw: "paired (y, x) = paired (x, y)" for x y :: 'a
    by (auto simp: paired_def)
  from r(5,6) pe have pij: "paired (student_id r_i, student_id r_j) \<in> set out" by simp
  from xy show ?thesis
  proof
    assume "(X, Y) = (A, B)"
    with r pij run show ?thesis by blast
  next
    assume "(X, Y) = (B, A)"
    with r have "direction r_j = (A, B)" "direction r_i = (B, A)" by simp_all
    moreover from pij sw [of "student_id r_i" "student_id r_j"]
    have "paired (student_id r_j, student_id r_i) \<in> set out" by simp
    ultimately show ?thesis using r(1,2) run by blast
  qed
qed

subsection \<open>Claims about hopcroft\_karp\<close>

text \<open>
  Claim C1 says that \<open>hopcroft_karp\<close> returns a maximum matching for every graph and every
  list of left nodes. The list \<open>repeated_nodes\<close> names node 3 twice. In the second round
  the first visit of node 3 fails and sets the distances of node 3 and of node 1 to
  infinity; at the second visit \<open>dist[1] == dist[3] + 1\<close> holds, since both sides are
  infinite, and then \<open>dfs(1)\<close> calls \<open>dfs(1)\<close> without end. With 1000 frames the run
  ends in \<open>RecursionError\<close>: no dictionary is returned.
\<close>

theorem repeated_left_node_counterexample:
  "hopcroft_karp_lim 1000 repeated_graph repeated_nodes = Some (Inl RecursionError)"
  by code_simp

text \<open>
  Claim C1, amended. For a bipartite graph given by the adjacency lists \<open>graph\<close> of its
  left nodes and a list \<open>left_nodes\<close> that names each left node once, where no left node
  is the sentinel \<open>None\<close> (nodes have type \<open>'a\<close>, the sentinel is \<open>None :: 'a option\<close>),
  and with room for more frames than there are left nodes, \<open>hopcroft_karp\<close> returns a
  dictionary (an association list with distinct keys) whose pairs form a matching of the
  graph: every pair is an edge and no node is in two pairs. No matching of the graph has
  more pairs.
\<close>

theorem hopcroft_karp_lim_maximum_matching:
  assumes "distinct left_nodes" and "length left_nodes < limit"
  shows "\<exists>result. hopcroft_karp_lim limit graph left_nodes = Some (Inr result) \<and>
           distinct (map fst result) \<and>
           matching graph left_nodes (set result) \<and>
           (\<forall>M. matching graph left_nodes M \<longrightarrow> card M \<le> card (set result))"
proof -
  from hopcroft_karp_lim_total [OF assms, of graph] obtain ml where
    r: "hopcroft_karp_lim limit graph left_nodes = Some (Inr ml)" "distinct (map fst ml)"
    "matching graph left_nodes (set ml)"
    "\<forall>M. matching graph left_nodes M \<longrightarrow> card M \<le> length ml"
    by blast
  from r(2) have "distinct ml" by (simp add: distinct_map)
  then have "card (set ml) = length ml" by (rule distinct_card)
  with r show ?thesis by simp
qed

theorem hopcroft_karp_lim_maximum_matching_witness:
  "distinct [1::nat, 2] \<and> length [1::nat, 2] < 3 \<and>
   (\<exists>result. hopcroft_karp_lim 3 augment_graph [1, 2] = Some (Inr result) \<and>
      distinct (map fst result) \<and>
      matching augment_graph [1, 2] (set result) \<and>
      (\<forall>M. matching augment_graph [1, 2] M \<longrightarrow> card M \<le> card (set result)))"
proof -
  have d: "distinct [1::nat, 2]" and l: "length [1::nat, 2] < 3" by simp_all
  from hopcroft_karp_lim_maximum_matching [OF d l, of augment_graph] d l show ?thesis by blast
qed





subsection \<open>Claims about match\_student\_pairs\<close>

lemma scenario1_run: "match_student_pairs scenario1 = Some [(1, 2)]"
  by code_simp

lemma scenario2_run: "match_student_pairs scenario2 = Some [(3, 4)]"
  by code_simp

lemma scenario4_run: "match_student_pairs scenario4 = Some [(1, 2)]"
  by code_simp

lemma scenario1_distinct: "distinct (map student_id scenario1)"
  by (simp add: scenario1_def)

lemma scenario2_distinct: "distinct (map student_id scenario2)"
  by (simp add: scenario2_def)

lemma scenario4_distinct: "distinct (map student_id scenario4)"
  by (simp add: scenario4_def scenario1_def)

lemma scenario5_distinct: "distinct (map student_id scenario5)"
  by (simp add: scenario5_def)

text \<open>
  Claim C2 says that a non-flexible request without preferred partner makes the run fail
  with an InvalidRequestError. The source validates nothing: on scenario 5 the run
  returns the empty list of pairs.
\<close>

theorem invalid_request_counterexample: "match_student_pairs scenario5 = Some []"
  by code_simp

text \<open>
  Claim C2, amended. A non-flexible request without preferred partner does not make the
  run fail: when the ids are pairwise distinct the run returns, and the id of such a
  request is in no pair of the output.
\<close>

theorem restrictive_without_partner_unmatched:
  assumes "distinct (map student_id students_info)" and "r \<in> set students_info"
    and "\<not> accept_swap r" and "teammate_id r = None"
  shows "\<exists>out. match_student_pairs students_info = Some out \<and>
           (\<forall>p \<in> set out. fst p \<noteq> student_id r \<and> snd p \<noteq> student_id r)"
proof -
  from match_student_pairs_total [OF assms(1)] obtain out where
    run: "match_student_pairs students_info = Some out" by blast
  have "fst p \<noteq> student_id r \<and> snd p \<noteq> student_id r" if "p \<in> set out" for p
  proof -
    from that have "(fst p, snd p) \<in> set out" by simp
    from pair_requests [OF run this] obtain r1 r2 where
      q: "r1 \<in> set students_info" "r2 \<in> set students_info" "student_id r1 = fst p"
      "student_id r2 = snd p" "valid r1 r2" by blast
    from q(5) assms(3,4) have "r1 \<noteq> r" "r2 \<noteq> r" by (auto simp: valid_iff)
    with unique_request [OF assms(1) q(1) assms(2)] unique_request [OF assms(1) q(2) assms(2)] q(3,4)
    show ?thesis by metis
  qed
  with run show ?thesis by blast
qed

theorem restrictive_without_partner_unmatched_witness:
  "distinct (map student_id scenario5) \<and>
   \<lparr>student_id = 8, current_group = ''G1'', desired_group = ''G2'', accept_swap = False,
     teammate_id = None\<rparr> \<in> set scenario5 \<and>
   (\<exists>out. match_student_pairs scenario5 = Some out \<and>
      (\<forall>p \<in> set out. fst p \<noteq> (8::nat) \<and> snd p \<noteq> 8))"
proof -
  let ?r = "\<lparr>student_id = 8::nat, current_group = ''G1'', desired_group = ''G2'',
              accept_swap = False, teammate_id = None\<rparr>"
  have m: "?r \<in> set scenario5" by (simp add: scenario5_def)
  from restrictive_without_partner_unmatched [OF scenario5_distinct m] scenario5_distinct m
  show ?thesis by simp
qed

text \<open>
  Claim C3. With pairwise distinct ids, for every pair \<open>(s1, s2)\<close> of the output there
  is exactly one request with id \<open>s1\<close> and exactly one with id \<open>s2\<close>, and each of the
  two is currently in the group the other one desires.
\<close>

theorem pairs_valid:
  assumes "distinct (map student_id students_info)"
    and "match_student_pairs students_info = Some out" and "(s1, s2) \<in> set out"
  shows "\<exists>r1 r2. r1 \<in> set students_info \<and> r2 \<in> set students_info \<and>
           student_id r1 = s1 \<and> student_id r2 = s2 \<and>
           (\<forall>r \<in> set students_info. student_id r = s1 \<longrightarrow> r = r1) \<and>
           (\<forall>r \<in> set students_info. student_id r = s2 \<longrightarrow> r = r2) \<and>
           current_group r1 = desired_group r2 \<and> current_group r2 = desired_group r1"
proof -
  from pair_requests [OF assms(2,3)] obtain r1 r2 where
    q: "r1 \<in> set students_info" "r2 \<in> set students_info" "student_id r1 = s1" "student_id r2 = s2"
    "current_group r1 = desired_group r2" "current_group r2 = desired_group r1" by blast
  have "r = r1" if "r \<in> set students_info" "student_id r = s1" for r
    using unique_request [OF assms(1) that(1) q(1)] that(2) q(3) by simp
  moreover have "r = r2" if "r \<in> set students_info" "student_id r = s2" for r
    using unique_request [OF assms(1) that(1) q(2)] that(2) q(4) by simp
  ultimately show ?thesis using q by blast
qed

theorem pairs_valid_witness:
  "distinct (map student_id scenario1) \<and> match_student_pairs scenario1 = Some [(1, 2)] \<and>
   (1, 2) \<in> set [(1::nat, 2::nat)] \<and>
   (\<exists>r1 r2. r1 \<in> set scenario1 \<and> r2 \<in> set scenario1 \<and>
      student_id r1 = 1 \<and> student_id r2 = 2 \<and>
      (\<forall>r \<in> set scenario1. student_id r = 1 \<longrightarrow> r = r1) \<and>
      (\<forall>r \<in> set scenario1. student_id r = 2 \<longrightarrow> r = r2) \<and>
      current_group r1 = desired_group r2 \<and> current_group r2 = desired_group r1)"
proof -
  have m: "(1, 2) \<in> set [(1::nat, 2::nat)]" by simp
  from pairs_valid [OF scenario1_distinct scenario1_run m] scenario1_distinct scenario1_run m
  show ?thesis by simp
qed

text \<open>
  Claim C4. With pairwise distinct ids, for every pair \<open>(s1, s2)\<close> of the output, the
  request with id \<open>s1\<close>, if it is not flexible, names \<open>s2\<close> as its partner, and the
  request with id \<open>s2\<close>, if it is not flexible, names \<open>s1\<close>.
\<close>

theorem pairs_consent:
  assumes "distinct (map student_id students_info)"
    and "match_student_pairs students_info = Some out" and "(s1, s2) \<in> set out"
  shows "\<exists>r1 r2. r1 \<in> set students_info \<and> r2 \<in> set students_info \<and>
           student_id r1 = s1 \<and> student_id r2 = s2 \<and>
           (\<forall>r \<in> set students_info. student_id r = s1 \<longrightarrow> r = r1) \<and>
           (\<forall>r \<in> set students_info. student_id r = s2 \<longrightarrow> r = r2) \<and>
           (\<not> accept_swap r1 \<longrightarrow> teammate_id r1 = Some s2) \<and>
           (\<not> accept_swap r2 \<longrightarrow> teammate_id r2 = Some s1)"
proof -
  from pair_requests [OF assms(2,3)] obtain r1 r2 where
    q: "r1 \<in> set students_info" "r2 \<in> set students_info" "student_id r1 = s1" "student_id r2 = s2"
    "valid r1 r2" by blast
  have "r = r1" if "r \<in> set students_info" "student_id r = s1" for r
    using unique_request [OF assms(1) that(1) q(1)] that(2) q(3) by simp
  moreover have "r = r2" if "r \<in> set students_info" "student_id r = s2" for r
    using unique_request [OF assms(1) that(1) q(2)] that(2) q(4) by simp
  moreover from q(3,4,5) have "\<not> accept_swap r1 \<longrightarrow> teammate_id r1 = Some s2"
    "\<not> accept_swap r2 \<longrightarrow> teammate_id r2 = Some s1" by (auto simp: valid_iff)
  ultimately show ?thesis using q(1-4) by blast
qed

theorem pairs_consent_witness:
  "distinct (map student_id scenario2) \<and> match_student_pairs scenario2 = Some [(3, 4)] \<and>
   (3, 4) \<in> set [(3::nat, 4::nat)] \<and>
   (\<exists>r1 r2. r1 \<in> set scenario2 \<and> r2 \<in> set scenario2 \<and>
      student_id r1 = 3 \<and> student_id r2 = 4 \<and>
      (\<forall>r \<in> set scenario2. student_id r = 3 \<longrightarrow> r = r1) \<and>
      (\<forall>r \<in> set scenario2. student_id r = 4 \<longrightarrow> r = r2) \<and>
      (\<not> accept_swap r1 \<longrightarrow> teammate_id r1 = Some 4) \<and>
      (\<not> accept_swap r2 \<longrightarrow> teammate_id r2 = Some 3))"
proof -
  have m: "(3, 4) \<in> set [(3::nat, 4::nat)]" by simp
  from pairs_consent [OF scenario2_distinct scenario2_run m] scenario2_distinct scenario2_run m
  show ?thesis by simp
qed

text \<open>
  Claim C8. Requests whose current group is their desired group are dropped before
  partitioning: the run on the whole input is the run on the input without them (the
  same pairs, or no result in both cases), so they cause no error. Every id in a pair of
  the output is the id of a request whose two groups differ; with pairwise distinct ids
  the run returns and the id of a dropped request is in no pair.
\<close>

theorem satisfied_requests_dropped:
  "match_student_pairs students_info =
     match_student_pairs (filter (\<lambda>r. current_group r \<noteq> desired_group r) students_info) \<and>
   (\<forall>out. match_student_pairs students_info = Some out \<longrightarrow>
      (\<forall>p \<in> set out. \<exists>r1 r2. r1 \<in> set students_info \<and> r2 \<in> set students_info \<and>
          current_group r1 \<noteq> desired_group r1 \<and> current_group r2 \<noteq> desired_group r2 \<and>
          student_id r1 = fst p \<and> student_id r2 = snd p)) \<and>
   (distinct (map student_id students_info) \<longrightarrow>
      (\<exists>out. match_student_pairs students_info = Some out \<and>
         (\<forall>r \<in> set students_info. current_group r = desired_group r \<longrightarrow>
            (\<forall>p \<in> set out. fst p \<noteq> student_id r \<and> snd p \<noteq> student_id r))))"
proof (intro conjI allI impI ballI)
  show "match_student_pairs students_info =
     match_student_pairs (filter (\<lambda>r. current_group r \<noteq> desired_group r) students_info)"
    by (simp add: match_student_pairs_def partition_swaps_filter_active)
next
  fix out p assume run: "match_student_pairs students_info = Some out" and p: "p \<in> set out"
  from p have "(fst p, snd p) \<in> set out" by simp
  from pair_requests [OF run this]
  show "\<exists>r1 r2. r1 \<in> set students_info \<and> r2 \<in> set students_info \<and>
          current_group r1 \<noteq> desired_group r1 \<and> current_group r2 \<noteq> desired_group r2 \<and>
          student_id r1 = fst p \<and> student_id r2 = snd p" by blast
next
  assume d: "distinct (map student_id students_info)"
  from match_student_pairs_total [OF d] obtain out where
    run: "match_student_pairs students_info = Some out" by blast
  have "fst p \<noteq> student_id r \<and> snd p \<noteq> student_id r"
    if "r \<in> set students_info" "current_group r = desired_group r" "p \<in> set out" for r p
  proof -
    from that(3) have "(fst p, snd p) \<in> set out" by simp
    from pair_requests [OF run this] obtain r1 r2 where
      q: "r1 \<in> set students_info" "r2 \<in> set students_info" "student_id r1 = fst p"
      "student_id r2 = snd p" "active r1" "active r2" by blast
    from q(5,6) that(2) have "r1 \<noteq> r" "r2 \<noteq> r" by auto
    with unique_request [OF d q(1) that(1)] unique_request [OF d q(2) that(1)] q(3,4)
    show ?thesis by metis
  qed
  with run show "\<exists>out. match_student_pairs students_info = Some out \<and>
         (\<forall>r \<in> set students_info. current_group r = desired_group r \<longrightarrow>
            (\<forall>p \<in> set out. fst p \<noteq> student_id r \<and> snd p \<noteq> student_id r))" by blast
qed

theorem satisfied_requests_dropped_witness:
  "distinct (map student_id scenario4) \<and>
   match_student_pairs scenario4 = Some [(1, 2)] \<and>
   filter (\<lambda>r. current_group r \<noteq> desired_group r) scenario4 = scenario1 \<and>
   match_student_pairs scenario4 =
     match_student_pairs (filter (\<lambda>r. current_group r \<noteq> desired_group r) scenario4) \<and>
   (\<exists>out. match_student_pairs scenario4 = Some out \<and>
      (\<forall>r \<in> set scenario4. current_group r = desired_group r \<longrightarrow>
         (\<forall>p \<in> set out. fst p \<noteq> student_id r \<and> snd p \<noteq> student_id r)))"
proof -
  have f: "filter (\<lambda>r. current_group r \<noteq> desired_group r) scenario4 = scenario1"
    by (simp add: scenario4_def scenario1_def)
  from satisfied_requests_dropped [of scenario4] scenario4_distinct scenario4_run f
  show ?thesis by blast
qed

text \<open>
  Claim C9. Every pair emitted by \<open>match_student_pairs\<close> has its smaller id first,
  whichever side of the bipartite graph each of the two requests was on.
\<close>

theorem pairs_sorted:
  "match_student_pairs students_info = Some out \<Longrightarrow> \<forall>p \<in> set out. fst p \<le> snd p"
  unfolding match_student_pairs_def Let_def
  by (erule match_loop_sorted) simp

theorem pairs_sorted_witness:
  "match_student_pairs scenario1 = Some [(1, 2)] \<and> fst (1::nat, 2::nat) \<le> snd (1::nat, 2::nat)"
proof -
  have "\<forall>p \<in> set [(1::nat, 2::nat)]. fst p \<le> snd p"
    by (rule pairs_sorted [OF scenario1_run])
  with scenario1_run show ?thesis by simp
qed

lemma two_partitions_run: "match_student_pairs two_partitions = Some [(1, 2), (3, 4)]"
  by code_simp

lemma two_partitions_distinct: "distinct (map student_id two_partitions)"
  by (simp add: two_partitions_def)

text \<open>
  Claim C5. With pairwise distinct ids the run returns, and the ids of its pairs, read
  pair after pair over the whole output (\<open>ids out\<close>), are pairwise different: no id is in
  two pairs, whichever partitions the pairs come from, and no pair has the same id twice.
\<close>

theorem ids_in_one_pair:
  assumes "distinct (map student_id students_info)"
  shows "\<exists>out. match_student_pairs students_info = Some out \<and> distinct (ids out)"
proof -
  from match_student_pairs_total [OF assms] obtain out where
    run: "match_student_pairs students_info = Some out" by blast
  from match_student_pairs_unique [OF assms run] run show ?thesis by blast
qed

theorem ids_in_one_pair_witness:
  "distinct (map student_id two_partitions) \<and>
   match_student_pairs two_partitions = Some [(1, 2), (3, 4)] \<and>
   (\<exists>out. match_student_pairs two_partitions = Some out \<and> distinct (ids out))"
  using ids_in_one_pair [OF two_partitions_distinct] two_partitions_distinct two_partitions_run
  by blast

text \<open>
  Claim C10. With pairwise distinct ids, if a flexible request goes from group \<open>A\<close> to
  group \<open>B\<close> and a flexible request goes from \<open>B\<close> to \<open>A\<close>, with \<open>A \<noteq> B\<close>, then the
  run returns and its output has a pair that joins a request from \<open>A\<close> to \<open>B\<close> with a
  request from \<open>B\<close> to \<open>A\<close>.
\<close>

theorem flexible_requests_matched:
  assumes "distinct (map student_id students_info)"
    and "r_a \<in> set students_info" and "r_b \<in> set students_info"
    and "accept_swap r_a" and "accept_swap r_b"
    and "current_group r_a = A" and "desired_group r_a = B"
    and "current_group r_b = B" and "desired_group r_b = A" and "A \<noteq> B"
  shows "\<exists>out. match_student_pairs students_info = Some out \<and>
           (\<exists>r1 r2. r1 \<in> set students_info \<and> r2 \<in> set students_info \<and>
              current_group r1 = A \<and> desired_group r1 = B \<and>
              current_group r2 = B \<and> desired_group r2 = A \<and>
              paired (student_id r1, student_id r2) \<in> set out)"
proof -
  from assms(6,7) have da: "direction r_a = (A, B)" by simp
  from assms(8,9) have db: "direction r_b = (B, A)" by simp
  from flexible_pair_emitted [OF assms(1) assms(2) assms(4) da assms(3) assms(5) db assms(10)]
  obtain out r1 r2 where "match_student_pairs students_info = Some out"
    "r1 \<in> set students_info" "r2 \<in> set students_info"
    "direction r1 = (A, B)" "direction r2 = (B, A)"
    "paired (student_id r1, student_id r2) \<in> set out" by blast
  then show ?thesis by (metis prod.inject)
qed

theorem flexible_requests_matched_witness:
  "distinct (map student_id scenario1) \<and>
   match_student_pairs scenario1 = Some [(1, 2)] \<and>
   (\<exists>out. match_student_pairs scenario1 = Some out \<and>
      (\<exists>r1 r2. r1 \<in> set scenario1 \<and> r2 \<in> set scenario1 \<and>
         current_group r1 = ''G1'' \<and> desired_group r1 = ''G2'' \<and>
         current_group r2 = ''G2'' \<and> desired_group r2 = ''G1'' \<and>
         paired (student_id r1, student_id r2) \<in> set out))"
proof -
  let ?a = "\<lparr>student_id = 1::nat, current_group = ''G1'', desired_group = ''G2'',
              accept_swap = True, teammate_id = None\<rparr>"
  let ?b = "\<lparr>student_id = 2::nat, current_group = ''G2'', desired_group = ''G1'',
              accept_swap = True, teammate_id = None\<rparr>"
  have a: "?a \<in> set scenario1" and b: "?b \<in> set scenario1" by (simp_all add: scenario1_def)
  have ne: "''G1'' \<noteq> ''G2''" by simp
  from flexible_requests_matched [OF scenario1_distinct a b _ _ _ _ _ _ ne]
  have "\<exists>out. match_student_pairs scenario1 = Some out \<and>
      (\<exists>r1 r2. r1 \<in> set scenario1 \<and> r2 \<in> set scenario1 \<and>
         current_group r1 = ''G1'' \<and> desired_group r1 = ''G2'' \<and>
         current_group r2 = ''G2'' \<and> desired_group r2 = ''G1'' \<and>
         paired (student_id r1, student_id r2) \<in> set out)" by simp
  with scenario1_distinct scenario1_run show ?thesis by blast
qed

end
